theory Spec2Isabelle
  imports Main "HOL-Library.Word"
begin

unbundle bit_operations_syntax

section \<open>Common data\<close>

text \<open>
  Keys and values are Go byte slices.  A slice is modelled by the list of its bytes; where
  the code tells a nil slice from an empty one (the bounds of a scan, the result of a table
  lookup) the model uses an option.
\<close>

type_synonym byte = "8 word"

text \<open>
  The error values of the packages, the errors of the Go library the code meets, and the
  two ways a call can fail to return a value at all: a run-time panic, and a loop that
  does not end (reported when the fuel of a pointer walk is exhausted).
\<close>

datatype error =
    ErrNotFound
  | EOF
  | ErrUnexpectedEOF
  | ErrInvalid
  | ErrIO
  | PanicDivideByZero
  | PanicIndexOutOfRange
  | PanicNilPointer
  | NoReturn

text \<open>
  \<open>bytes.Compare\<close>: the lexicographic order of byte slices, bytes compared as unsigned
  numbers; the result is \<open>-1\<close>, \<open>0\<close> or \<open>1\<close>.  A nil slice compares as an empty one.
\<close>

fun bytes_Compare :: "byte list \<Rightarrow> byte list \<Rightarrow> int" where
  "bytes_Compare [] [] = 0"
| "bytes_Compare [] (y # ys) = - 1"
| "bytes_Compare (x # xs) [] = 1"
| "bytes_Compare (x # xs) (y # ys) =
     (if x < y then - 1 else if y < x then 1 else bytes_Compare xs ys)"

section \<open>Package bloom\<close>

text \<open>
  \<^verbatim>\<open>hash/fnv\<close>, 64-bit FNV-1a: starting from the offset basis, every byte is xor-ed into
  the state, which is then multiplied by the prime, modulo \<open>2 ^ 64\<close>.
\<close>

definition fnv_offset64 :: "64 word" where
  "fnv_offset64 = 14695981039346656037"

definition fnv_prime64 :: "64 word" where
  "fnv_prime64 = 1099511628211"

fun fnv64a_write :: "64 word \<Rightarrow> byte list \<Rightarrow> 64 word" where
  "fnv64a_write h [] = h"
| "fnv64a_write h (c # cs) = fnv64a_write ((h XOR ucast c) * fnv_prime64) cs"

text \<open>
  A slot of \<open>Filter.hashes\<close>.  \<open>New\<close> fills every slot with \<^verbatim>\<open>fnv.New64a()\<close>, and
  both \<open>Add\<close> and \<open>MayContain\<close> reset a hasher before they write the key to it, so the
  state a hasher keeps between two calls is never read: a slot is modelled by its kind, and
  \<open>Sum64\<close> is what \<^verbatim>\<open>Reset(); Write(s); Sum64()\<close> returns.
\<close>

datatype hasher = FNV64a

fun Sum64 :: "hasher \<Rightarrow> byte list \<Rightarrow> 64 word" where
  "Sum64 FNV64a s = fnv64a_write fnv_offset64 s"

record Filter =
  bitSet :: "bool list"
  fsize :: int
  hashes :: "hasher list"

text \<open>
  \<open>New(size uint64, hashesc uint8)\<close>.  The field \<open>size\<close> is \<open>int(size)\<close>, the signed
  reading of the 64 bits.
\<close>

definition bloom_New :: "64 word \<Rightarrow> 8 word \<Rightarrow> Filter" where
  "bloom_New sz hashesc =
     \<lparr> bitSet = replicate (unat sz) False,
       fsize = sint sz,
       hashes = map (\<lambda>i. FNV64a) [0 ..< unat hashesc] \<rparr>"

text \<open>
  \<open>index := b.Sum64() % uint64(f.size)\<close>: the remainder of unsigned 64-bit words; Go
  panics when the divisor is zero.
\<close>

definition bit_index :: "Filter \<Rightarrow> hasher \<Rightarrow> byte list \<Rightarrow> error + nat" where
  "bit_index f b s =
     (let m = (word_of_int (fsize f) :: 64 word)
      in if m = 0 then Inl PanicDivideByZero else Inr (unat (Sum64 b s mod m)))"

text \<open>The loop of \<open>Add\<close> over the slots that remain.\<close>

fun Add_loop :: "hasher list \<Rightarrow> byte list \<Rightarrow> Filter \<Rightarrow> error + Filter" where
  "Add_loop [] s f = Inr f"
| "Add_loop (b # bs) s f =
     (case bit_index f b s of
        Inl e \<Rightarrow> Inl e
      | Inr i \<Rightarrow>
          if i < length (bitSet f)
          then Add_loop bs s (f\<lparr>bitSet := (bitSet f)[i := True]\<rparr>)
          else Inl PanicIndexOutOfRange)"

definition Filter_Add :: "Filter \<Rightarrow> byte list \<Rightarrow> error + Filter" where
  "Filter_Add f s = Add_loop (hashes f) s f"

text \<open>The loop of \<open>MayContain\<close>: false at the first slot whose bit is unset.\<close>

fun MayContain_loop :: "hasher list \<Rightarrow> byte list \<Rightarrow> Filter \<Rightarrow> error + bool" where
  "MayContain_loop [] s f = Inr True"
| "MayContain_loop (b # bs) s f =
     (case bit_index f b s of
        Inl e \<Rightarrow> Inl e
      | Inr i \<Rightarrow>
          if i < length (bitSet f)
          then (if \<not> bitSet f ! i then Inr False else MayContain_loop bs s f)
          else Inl PanicIndexOutOfRange)"

definition Filter_MayContain :: "Filter \<Rightarrow> byte list \<Rightarrow> error + bool" where
  "Filter_MayContain f s = MayContain_loop (hashes f) s f"

text \<open>A sequence of \<open>Add\<close> calls on one filter, stopping at the first call that panics.\<close>

fun Add_all :: "Filter \<Rightarrow> byte list list \<Rightarrow> error + Filter" where
  "Add_all f [] = Inr f"
| "Add_all f (k # ks) = (case Filter_Add f k of Inl e \<Rightarrow> Inl e | Inr f' \<Rightarrow> Add_all f' ks)"

text \<open>
  Notions used to state and prove the properties of the filter: the invariant that ties the
  fields of a filter built for \<open>sz\<close> bits, the one bit index every slot computes for a
  key, and the bit array after the keys \<open>ks\<close> were added.
\<close>

definition bloom_inv :: "64 word \<Rightarrow> Filter \<Rightarrow> bool" where
  "bloom_inv sz f = (length (bitSet f) = unat sz \<and> word_of_int (fsize f) = sz)"

definition bloom_idx :: "64 word \<Rightarrow> byte list \<Rightarrow> nat" where
  "bloom_idx sz s = unat (fnv64a_write fnv_offset64 s mod sz)"

definition set_bits :: "64 word \<Rightarrow> byte list list \<Rightarrow> bool list \<Rightarrow> bool list" where
  "set_bits sz ks bs = fold (\<lambda>k bs. bs[bloom_idx sz k := True]) ks bs"

section \<open>Package wal\<close>

text \<open>
  \<open>binary.LittleEndian.PutUint32\<close> and \<open>binary.LittleEndian.Uint32\<close> on a four-byte
  buffer.
\<close>

definition PutUint32_le :: "32 word \<Rightarrow> byte list" where
  "PutUint32_le v = [ucast v, ucast (drop_bit 8 v), ucast (drop_bit 16 v), ucast (drop_bit 24 v)]"

definition Uint32_le :: "byte list \<Rightarrow> 32 word" where
  "Uint32_le b =
     ucast (b ! 0) OR push_bit 8 (ucast (b ! 1)) OR push_bit 16 (ucast (b ! 2))
       OR push_bit 24 (ucast (b ! 3))"

text \<open>\<open>OpType\<close> is a byte; \<open>OpPut\<close> and \<open>OpDelete\<close> are its two named values.\<close>

definition OpPut :: byte where
  "OpPut = 1"

definition OpDelete :: byte where
  "OpDelete = 2"

record Record =
  Type :: byte
  Key :: "byte list"
  Value :: "byte list"

text \<open>\<open>Record{}\<close>, the zero value the reader returns when it has no record.\<close>

definition Record_zero :: Record where
  "Record_zero = \<lparr> Type = 0, Key = [], Value = [] \<rparr>"

subsection \<open>The file under the writer\<close>

text \<open>
  The \<open>io.Writer\<close> the log is written to: the bytes it holds, and how many more bytes it
  accepts (\<open>None\<close>: no limit).  A write beyond the limit stores the bytes that fit and
  fails with an I/O error, as a write to a full disk does; with the limit at zero every
  write of one byte or more fails.
\<close>

record Device =
  data :: "byte list"
  room :: "nat option"

definition dev_Write :: "Device \<Rightarrow> byte list \<Rightarrow> error option \<times> Device" where
  "dev_Write d bs =
     (case room d of
        None \<Rightarrow> (None, d\<lparr>data := data d @ bs\<rparr>)
      | Some n \<Rightarrow>
          if length bs \<le> n
          then (None, d\<lparr>data := data d @ bs, room := Some (n - length bs)\<rparr>)
          else (Some ErrIO, d\<lparr>data := data d @ take n bs, room := Some 0\<rparr>))"

subsection \<open>Writer\<close>

text \<open>
  \<open>Writer\<close> wraps a \<open>bufio.Writer\<close>: the bytes written and not yet flushed, and the
  error the buffered writer keeps once a write to the file has failed, after which
  every call on it returns that error and writes nothing.  The buffer of the library
  is bounded and spills to the file when it is full; every \<open>Append\<close> ends with a flush, and
  the file takes bytes in order until it fails, so the bytes that reach the file and the
  error \<open>Append\<close> returns are the same with the flush at the end only.
\<close>

record Writer =
  pending :: "byte list"
  werr :: "error option"

definition NewWriter :: Writer where
  "NewWriter = \<lparr> pending = [], werr = None \<rparr>"

definition bw_Write :: "Writer \<Rightarrow> byte list \<Rightarrow> error option \<times> Writer" where
  "bw_Write w bs =
     (case werr w of
        Some e \<Rightarrow> (Some e, w)
      | None \<Rightarrow> (None, w\<lparr>pending := pending w @ bs\<rparr>))"

definition bw_WriteByte :: "Writer \<Rightarrow> byte \<Rightarrow> error option \<times> Writer" where
  "bw_WriteByte w c = bw_Write w [c]"

definition bw_Flush :: "Writer \<Rightarrow> Device \<Rightarrow> error option \<times> Writer \<times> Device" where
  "bw_Flush w d =
     (case werr w of
        Some e \<Rightarrow> (Some e, w, d)
      | None \<Rightarrow>
          if pending w = [] then (None, w, d)
          else (case dev_Write d (pending w) of
                  (None, d') \<Rightarrow> (None, w\<lparr>pending := []\<rparr>, d')
                | (Some e, d') \<Rightarrow> (Some e, w\<lparr>werr := Some e\<rparr>, d')))"

text \<open>\<open>writeBytes\<close>: the length as \<open>uint32(len(b))\<close>, little-endian, then the bytes.\<close>

definition writeBytes :: "Writer \<Rightarrow> byte list \<Rightarrow> error option \<times> Writer" where
  "writeBytes w b =
     (case bw_Write w (PutUint32_le (of_nat (length b))) of
        (Some e, w') \<Rightarrow> (Some e, w')
      | (None, w') \<Rightarrow> bw_Write w' b)"

definition Writer_Append :: "Writer \<Rightarrow> Device \<Rightarrow> Record \<Rightarrow> error option \<times> Writer \<times> Device" where
  "Writer_Append w d rec =
     (case bw_WriteByte w (Type rec) of
        (Some e, w1) \<Rightarrow> (Some e, w1, d)
      | (None, w1) \<Rightarrow>
          (case writeBytes w1 (Key rec) of
             (Some e, w2) \<Rightarrow> (Some e, w2, d)
           | (None, w2) \<Rightarrow>
               if Type rec = OpPut
               then (case writeBytes w2 (Value rec) of
                       (Some e, w3) \<Rightarrow> (Some e, w3, d)
                     | (None, w3) \<Rightarrow> bw_Flush w3 d)
               else bw_Flush w2 d))"

subsection \<open>Reader\<close>

text \<open>
  The reader is a \<open>bufio.Reader\<close> over the log: its state is the bytes not yet read.
  \<open>ReadByte\<close> fails with \<open>io.EOF\<close> at the end.  \<open>io.ReadFull\<close> fills a buffer of
  \<open>n\<close> bytes: it succeeds when \<open>n\<close> bytes are left (always for \<open>n = 0\<close>), fails
  with \<open>io.EOF\<close> when none is left, and with \<open>io.ErrUnexpectedEOF\<close> after it has read
  fewer than \<open>n\<close>, which it has then consumed.
\<close>

definition ReadByte :: "byte list \<Rightarrow> (error + byte) \<times> byte list" where
  "ReadByte bs = (case bs of [] \<Rightarrow> (Inl EOF, []) | c # cs \<Rightarrow> (Inr c, cs))"

definition ReadFull :: "nat \<Rightarrow> byte list \<Rightarrow> (error + byte list) \<times> byte list" where
  "ReadFull n bs =
     (if n \<le> length bs then (Inr (take n bs), drop n bs)
      else if bs = [] then (Inl EOF, [])
      else (Inl ErrUnexpectedEOF, []))"

definition readBytes :: "byte list \<Rightarrow> (error + byte list) \<times> byte list" where
  "readBytes bs =
     (case ReadFull 4 bs of
        (Inl e, rest) \<Rightarrow> (Inl e, rest)
      | (Inr lenBuf, rest) \<Rightarrow> ReadFull (unat (Uint32_le lenBuf)) rest)"

text \<open>\<open>Reader.Next\<close> returns the record, \<open>ok\<close> and the error, and leaves the reader advanced.\<close>

definition Reader_Next :: "byte list \<Rightarrow> (Record \<times> bool \<times> error option) \<times> byte list" where
  "Reader_Next bs =
     (case ReadByte bs of
        (Inl e, r0) \<Rightarrow>
          if e = EOF then ((Record_zero, False, None), r0)
          else ((Record_zero, False, Some e), r0)
      | (Inr t, r0) \<Rightarrow>
          (case readBytes r0 of
             (Inl e, r1) \<Rightarrow> ((Record_zero, False, Some e), r1)
           | (Inr k, r1) \<Rightarrow>
               if t = OpPut
               then (case readBytes r1 of
                       (Inl e, r2) \<Rightarrow> ((Record_zero, False, Some e), r2)
                     | (Inr v, r2) \<Rightarrow> ((\<lparr> Type = t, Key = k, Value = v \<rparr>, True, None), r2))
               else ((\<lparr> Type = t, Key = k, Value = [] \<rparr>, True, None), r1)))"

lemma Reader_Next_shorter:
  "Reader_Next bs = ((rec, True, e), rest) \<Longrightarrow> length rest < length bs"
  by (auto simp: Reader_Next_def ReadByte_def readBytes_def ReadFull_def
      split: list.splits sum.splits prod.splits if_splits)

text \<open>
  Reading a log to its end, the way \<open>Open\<close> drives the reader: call \<open>Next\<close> until it
  answers \<open>ok = false\<close>.  The result is the records it yielded and the error of the
  last call.
\<close>

function read_all :: "byte list \<Rightarrow> Record list \<times> error option" where
  "read_all bs =
     (case Reader_Next bs of
        ((rec, ok, e), rest) \<Rightarrow>
          if \<not> ok then ([], e)
          else (case read_all rest of (rs, e') \<Rightarrow> (rec # rs, e')))"
  by pat_completeness auto
termination
  by (relation "measure length") (auto dest: Reader_Next_shorter [OF sym])

declare read_all.simps [simp del]

text \<open>Appending a sequence of records with one writer, whatever each call returns.\<close>

fun Append_all :: "Writer \<Rightarrow> Device \<Rightarrow> Record list \<Rightarrow> error option list \<times> Writer \<times> Device" where
  "Append_all w d [] = ([], w, d)"
| "Append_all w d (r # rs) =
     (case Writer_Append w d r of
        (e, w', d') \<Rightarrow> (case Append_all w' d' rs of (es, w'', d'') \<Rightarrow> (e # es, w'', d'')))"

text \<open>
  What a record looks like after a round trip: \<open>Append\<close> writes the value of a Put
  record only, so every other record comes back with no value.  The bytes \<open>Append\<close> writes
  for a record, and for a sequence of records.
\<close>

definition wal_canon :: "Record \<Rightarrow> Record" where
  "wal_canon r = (if Type r = OpPut then r else r\<lparr>Value := []\<rparr>)"

definition wal_bytes :: "Record \<Rightarrow> byte list" where
  "wal_bytes r =
     Type r # PutUint32_le (of_nat (length (Key r))) @ Key r @
       (if Type r = OpPut then PutUint32_le (of_nat (length (Value r))) @ Value r else [])"

definition wal_fits :: "Record \<Rightarrow> bool" where
  "wal_fits r =
     (length (Key r) < 2 ^ 32 \<and> (Type r = OpPut \<longrightarrow> length (Value r) < 2 ^ 32))"

section \<open>Package sstable\<close>

subsection \<open>The table file\<close>

text \<open>
  An \<open>*os.File\<close> opened for reading and writing: its bytes, the offset of the next read or
  write, and how many more bytes it accepts (\<open>None\<close>: no limit; a write beyond the limit
  stores what fits and fails).  The pointer may be nil, which is \<open>None\<close> here: every
  method of a nil \<open>*os.File\<close> fails with \<open>os.ErrInvalid\<close>.
\<close>

record OSFile =
  content :: "byte list"
  pos :: nat
  froom :: "nat option"

definition file_empty :: OSFile where
  "file_empty = \<lparr> content = [], pos = 0, froom = None \<rparr>"

text \<open>\<open>Seek(offset, 0)\<close>: the offset is absolute; a negative one is refused.\<close>

definition file_Seek :: "OSFile option \<Rightarrow> int \<Rightarrow> error option \<times> OSFile option" where
  "file_Seek fo off =
     (case fo of
        None \<Rightarrow> (Some ErrInvalid, None)
      | Some f \<Rightarrow> if off < 0 then (Some ErrInvalid, fo) else (None, Some (f\<lparr>pos := nat off\<rparr>)))"

text \<open>
  \<open>Write(b)\<close> stores the bytes at the offset, over what is there, after padding a file
  that ends before the offset with zeros.
\<close>

definition store_at :: "byte list \<Rightarrow> nat \<Rightarrow> byte list \<Rightarrow> byte list" where
  "store_at c p b = take p c @ replicate (p - length c) 0 @ b @ drop (p + length b) c"

definition file_Write :: "OSFile option \<Rightarrow> byte list \<Rightarrow> error option \<times> OSFile option" where
  "file_Write fo b =
     (case fo of
        None \<Rightarrow> (Some ErrInvalid, None)
      | Some f \<Rightarrow>
          (case froom f of
             None \<Rightarrow>
               (None, Some (f\<lparr>content := store_at (content f) (pos f) b, pos := pos f + length b\<rparr>))
           | Some n \<Rightarrow>
               if length b \<le> n
               then (None, Some (f\<lparr>content := store_at (content f) (pos f) b,
                                   pos := pos f + length b, froom := Some (n - length b)\<rparr>))
               else (Some ErrIO, Some (f\<lparr>content := store_at (content f) (pos f) (take n b),
                                        pos := pos f + n, froom := Some 0\<rparr>))))"

text \<open>
  \<open>Read(b)\<close> with a buffer of \<open>n\<close> zero bytes, as \<open>make\<close> returns it: one read, which
  may fill only the front of the buffer when the file ends early; \<open>io.EOF\<close> when the
  buffer is not empty and nothing is left.  The result is the buffer after the call.
\<close>

definition file_Read :: "OSFile option \<Rightarrow> nat \<Rightarrow> (error + byte list) \<times> OSFile option" where
  "file_Read fo n =
     (case fo of
        None \<Rightarrow> (Inl ErrInvalid, None)
      | Some f \<Rightarrow>
          if n = 0 then (Inr [], fo)
          else if length (content f) \<le> pos f then (Inl EOF, fo)
          else (let got = take n (drop (pos f) (content f))
                in (Inr (got @ replicate (n - length got) 0), Some (f\<lparr>pos := pos f + length got\<rparr>))))"

text \<open>
  \<open>io.ReadFull\<close> on the file, which \<open>binary.Read\<close> uses for a fixed-size value: all
  \<open>n\<close> bytes, or \<open>io.EOF\<close> when none is left, or \<open>io.ErrUnexpectedEOF\<close> after
  fewer.
\<close>

definition file_ReadFull :: "OSFile option \<Rightarrow> nat \<Rightarrow> (error + byte list) \<times> OSFile option" where
  "file_ReadFull fo n =
     (case fo of
        None \<Rightarrow> (Inl ErrInvalid, None)
      | Some f \<Rightarrow>
          if pos f + n \<le> length (content f)
          then (Inr (take n (drop (pos f) (content f))), Some (f\<lparr>pos := pos f + n\<rparr>))
          else if length (content f) \<le> pos f then (Inl EOF, fo)
          else (Inl ErrUnexpectedEOF, Some (f\<lparr>pos := length (content f)\<rparr>)))"

text \<open>
  \<open>binary.Write\<close> and \<open>binary.Read\<close> of an \<open>int32\<close>, big-endian.  \<open>int32(len(b))\<close>
  keeps the low 32 bits of the length; the value read back is signed.
\<close>

definition PutInt32_be :: "32 word \<Rightarrow> byte list" where
  "PutInt32_be v = [ucast (drop_bit 24 v), ucast (drop_bit 16 v), ucast (drop_bit 8 v), ucast v]"

definition Int32_be :: "byte list \<Rightarrow> 32 word" where
  "Int32_be b =
     ucast (b ! 3) OR push_bit 8 (ucast (b ! 2)) OR push_bit 16 (ucast (b ! 1))
       OR push_bit 24 (ucast (b ! 0))"

subsection \<open>The table\<close>

type_synonym KeyValue = "byte list \<times> byte list"

record SparseIndex =
  startKey :: "byte list"
  endKey :: "byte list"
  isize :: int
  offset :: int

record SSTable =
  sst_file :: "OSFile option"
  sparseIndexs :: "SparseIndex list"
  blockSize :: int

definition NewSSTable :: "OSFile option \<Rightarrow> int \<Rightarrow> SSTable" where
  "NewSSTable f bs = \<lparr> sst_file = f, sparseIndexs = [], blockSize = bs \<rparr>"

text \<open>\<open>WriteBlock\<close>: the loop over the pairs that remain, on the file.\<close>

fun WriteBlock_loop :: "OSFile option \<Rightarrow> KeyValue list \<Rightarrow> error option \<times> OSFile option" where
  "WriteBlock_loop f [] = (None, f)"
| "WriteBlock_loop f (kv # kvs) =
     (case file_Write f (PutInt32_be (of_nat (length (fst kv)))) of
        (Some e, f1) \<Rightarrow> (Some e, f1)
      | (None, f1) \<Rightarrow>
          (case file_Write f1 (fst kv) of
             (Some e, f2) \<Rightarrow> (Some e, f2)
           | (None, f2) \<Rightarrow>
               (case file_Write f2 (PutInt32_be (of_nat (length (snd kv)))) of
                  (Some e, f3) \<Rightarrow> (Some e, f3)
                | (None, f3) \<Rightarrow>
                    (case file_Write f3 (snd kv) of
                       (Some e, f4) \<Rightarrow> (Some e, f4)
                     | (None, f4) \<Rightarrow> WriteBlock_loop f4 kvs))))"

definition WriteBlock :: "SSTable \<Rightarrow> KeyValue list \<Rightarrow> error option \<times> SSTable" where
  "WriteBlock s blockData =
     (case WriteBlock_loop (sst_file s) blockData of (e, f) \<Rightarrow> (e, s\<lparr>sst_file := f\<rparr>))"

lemma file_ReadFull_advance:
  "file_ReadFull fo n = (Inr b, fo') \<Longrightarrow>
   \<exists>f f'. fo = Some f \<and> fo' = Some f' \<and> content f' = content f \<and> pos f' = pos f + n
      \<and> pos f' \<le> length (content f)"
  by (auto simp: file_ReadFull_def split: option.splits if_splits)

lemma file_Read_advance:
  "file_Read (Some f) n = (Inr b, fo') \<Longrightarrow>
   \<exists>f'. fo' = Some f' \<and> content f' = content f \<and> pos f \<le> pos f'
      \<and> (pos f \<le> length (content f) \<longrightarrow> pos f' \<le> length (content f))
      \<and> (0 < n \<longrightarrow> pos f < pos f')"
  by (auto simp: file_Read_def Let_def split: if_splits)

text \<open>The bytes between the offset of a file and its end: what a loop of reads consumes.\<close>

definition file_left :: "OSFile option \<times> KeyValue list \<Rightarrow> nat" where
  "file_left p = (case fst p of None \<Rightarrow> 0 | Some f \<Rightarrow> length (content f) - pos f)"

lemma readBlock_step:
  assumes "(Inr kl, f1) = file_ReadFull f 4" and "(Inr k, f2) = file_Read f1 n1"
    and "(Inr vl, f3) = file_ReadFull f2 4" and "(Inr v, f4) = file_Read f3 n2"
  shows "file_left (f4, r') < file_left (f, r)"
proof -
  from file_ReadFull_advance [OF assms(1) [symmetric]] obtain g g1 where
    g: "f = Some g" "f1 = Some g1" "content g1 = content g" "pos g1 = pos g + 4"
      "pos g1 \<le> length (content g)" by blast
  from assms(2) g have "file_Read (Some g1) n1 = (Inr k, f2)" by simp
  from file_Read_advance [OF this] obtain g2 where
    g2: "f2 = Some g2" "content g2 = content g1" "pos g1 \<le> pos g2" by blast
  from assms(3) g2 have "file_ReadFull (Some g2) 4 = (Inr vl, f3)" by simp
  from file_ReadFull_advance [OF this] obtain g3 where
    g3: "f3 = Some g3" "content g3 = content g2" "pos g3 = pos g2 + 4" by blast
  from assms(4) g3 have "file_Read (Some g3) n2 = (Inr v, f4)" by simp
  from file_Read_advance [OF this] obtain g4 where
    g4: "f4 = Some g4" "content g4 = content g3" "pos g3 \<le> pos g4" by blast
  show ?thesis using g g2 g3 g4 by (simp add: file_left_def)
qed

text \<open>
  The loop of \<open>readBlockFromOffset\<close>, from the offset the file is at: it returns the pairs
  read so far at the end of the file, at a key length that is not positive and at a
  negative value length; every other failure of a read is returned as an error.
\<close>

function readBlock_loop :: "OSFile option \<Rightarrow> KeyValue list \<Rightarrow> (error + KeyValue list) \<times> OSFile option" where
  "readBlock_loop f result =
     (case file_ReadFull f 4 of
        (Inl e, f1) \<Rightarrow> if e = EOF then (Inr result, f1) else (Inl e, f1)
      | (Inr kl, f1) \<Rightarrow>
          if sint (Int32_be kl) \<le> 0 then (Inr result, f1)
          else (case file_Read f1 (nat (sint (Int32_be kl))) of
                  (Inl e, f2) \<Rightarrow> (Inl e, f2)
                | (Inr k, f2) \<Rightarrow>
                    (case file_ReadFull f2 4 of
                       (Inl e, f3) \<Rightarrow> (Inl e, f3)
                     | (Inr vl, f3) \<Rightarrow>
                         if sint (Int32_be vl) < 0 then (Inr result, f3)
                         else (case file_Read f3 (nat (sint (Int32_be vl))) of
                                 (Inl e, f4) \<Rightarrow> (Inl e, f4)
                               | (Inr v, f4) \<Rightarrow> readBlock_loop f4 (result @ [(k, v)])))))"
  by pat_completeness auto
termination
  by (relation "measure file_left") (auto simp: readBlock_step)

declare readBlock_loop.simps [simp del]

definition readBlockFromOffset :: "SSTable \<Rightarrow> int \<Rightarrow> (error + KeyValue list) \<times> SSTable" where
  "readBlockFromOffset s startOffset =
     (case file_Seek (sst_file s) startOffset of
        (Some e, f) \<Rightarrow> (Inl e, s\<lparr>sst_file := f\<rparr>)
      | (None, f) \<Rightarrow> (case readBlock_loop f [] of (r, f') \<Rightarrow> (r, s\<lparr>sst_file := f'\<rparr>)))"

lemma readBlock_loop_content:
  "readBlock_loop fo r = (x, fo') \<Longrightarrow> fo = Some g \<Longrightarrow>
   \<exists>g'. fo' = Some g' \<and> content g' = content g"
proof (induction fo r arbitrary: g rule: readBlock_loop.induct)
  case (1 f result)
  show ?case
  proof (cases "file_ReadFull f 4")
    case (Pair a f1)
    show ?thesis
    proof (cases a)
      case (Inl e)
      with Pair "1.prems" show ?thesis
        by (subst (asm) readBlock_loop.simps)
          (auto simp: file_ReadFull_def split: if_splits)
    next
      case (Inr kl)
      from file_ReadFull_advance [of f 4 kl f1] Pair Inr "1.prems"(2) obtain g1 where
        g1: "f1 = Some g1" "content g1 = content g" by auto
      show ?thesis
      proof (cases "sint (Int32_be kl) \<le> 0")
        case True
        with Pair Inr "1.prems" g1 show ?thesis
          by (subst (asm) readBlock_loop.simps) auto
      next
        case nonpos: False
        obtain b f2 where r2: "file_Read f1 (nat (sint (Int32_be kl))) = (b, f2)"
          by (cases "file_Read f1 (nat (sint (Int32_be kl)))")
        show ?thesis
        proof (cases b)
          case (Inl e)
          with Pair Inr "1.prems" g1 nonpos r2 show ?thesis
            by (subst (asm) readBlock_loop.simps)
              (auto simp: file_Read_def Let_def split: if_splits)
        next
          case k: (Inr k)
          from file_Read_advance [of g1 _ k f2] r2 k g1 obtain g2 where
            g2: "f2 = Some g2" "content g2 = content g" by auto
          obtain c f3 where r3: "file_ReadFull f2 4 = (c, f3)" by (cases "file_ReadFull f2 4")
          show ?thesis
          proof (cases c)
            case (Inl e)
            with Pair Inr "1.prems" g1 nonpos r2 k r3 g2 show ?thesis
              by (subst (asm) readBlock_loop.simps)
                (auto simp: file_ReadFull_def split: if_splits)
          next
            case vl: (Inr vl)
            from file_ReadFull_advance [of f2 4 vl f3] r3 vl g2 obtain g3 where
              g3: "f3 = Some g3" "content g3 = content g" by auto
            show ?thesis
            proof (cases "sint (Int32_be vl) < 0")
              case True
              with Pair Inr "1.prems" g1 nonpos r2 k r3 vl g3 show ?thesis
                by (subst (asm) readBlock_loop.simps) auto
            next
              case nonneg: False
              obtain d f4 where r4: "file_Read f3 (nat (sint (Int32_be vl))) = (d, f4)"
                by (cases "file_Read f3 (nat (sint (Int32_be vl)))")
              show ?thesis
              proof (cases d)
                case (Inl e)
                with Pair Inr "1.prems" g1 nonpos r2 k r3 vl g3 nonneg r4 show ?thesis
                  by (subst (asm) readBlock_loop.simps)
                    (auto simp: file_Read_def Let_def split: if_splits)
              next
                case v: (Inr v)
                from file_Read_advance [of g3 _ v f4] r4 v g3 obtain g4 where
                  g4: "f4 = Some g4" "content g4 = content g" by auto
                have rec: "readBlock_loop f4 (result @ [(k, v)]) = (x, fo')"
                  using "1.prems"(1) Pair Inr nonpos r2 k r3 vl nonneg r4 v
                  by (subst (asm) readBlock_loop.simps) simp
                from "1.IH" [OF Pair [symmetric] Inr nonpos r2 [symmetric]
                    k r3 [symmetric] vl nonneg r4 [symmetric] v rec g4(1)]
                show ?thesis using g4 by simp
              qed
            qed
          qed
        qed
      qed
    qed
  qed
qed

lemma readBlock_loop_unfold:
  "readBlock_loop f r = (x, f') \<Longrightarrow>
   x = Inr r \<or> (\<exists>e. x = Inl e) \<or>
   (\<exists>kl f1 k f2 vl f3 v f4.
      file_ReadFull f 4 = (Inr kl, f1) \<and> 0 < sint (Int32_be kl)
      \<and> file_Read f1 (nat (sint (Int32_be kl))) = (Inr k, f2)
      \<and> file_ReadFull f2 4 = (Inr vl, f3) \<and> 0 \<le> sint (Int32_be vl)
      \<and> file_Read f3 (nat (sint (Int32_be vl))) = (Inr v, f4)
      \<and> readBlock_loop f4 (r @ [(k, v)]) = (x, f'))"
  by (subst (asm) readBlock_loop.simps) (auto split: prod.splits sum.splits if_splits)

lemma file_Read_length: "file_Read fo n = (Inr b, fo') \<Longrightarrow> length b = n"
  by (auto simp: file_Read_def Let_def split: option.splits if_splits)

lemma readBlock_loop_first:
  assumes "readBlock_loop fo r = (Inr bd, fo')" and "bd \<noteq> r"
  shows "\<exists>g. fo = Some g \<and> pos g + 4 \<le> length (content g)"
proof -
  from readBlock_loop_unfold [OF assms(1)] assms(2)
  obtain kl f1 where "file_ReadFull fo 4 = (Inr kl, f1)" by auto
  from file_ReadFull_advance [OF this] show ?thesis by auto
qed

lemma readBlock_loop_keys:
  "readBlock_loop fo r = (Inr bd, fo') \<Longrightarrow> kv \<in> set bd \<Longrightarrow> kv \<in> set r \<or> 0 < length (fst kv)"
proof (induction "file_left (fo, r)" arbitrary: fo r rule: less_induct)
  case less
  from readBlock_loop_unfold [OF less.prems(1)]
  consider "bd = r"
    | kl f1 k f2 vl f3 v f4 where
      "file_ReadFull fo 4 = (Inr kl, f1)" "0 < sint (Int32_be kl)"
      "file_Read f1 (nat (sint (Int32_be kl))) = (Inr k, f2)"
      "file_ReadFull f2 4 = (Inr vl, f3)"
      "file_Read f3 (nat (sint (Int32_be vl))) = (Inr v, f4)"
      "readBlock_loop f4 (r @ [(k, v)]) = (Inr bd, fo')"
    by auto
  then show ?case
  proof cases
    case 1
    then show ?thesis using less.prems(2) by simp
  next
    case 2
    have lt: "file_left (f4, r @ [(k, v)]) < file_left (fo, r)"
      by (rule readBlock_step [OF 2(1) [symmetric] 2(3) [symmetric] 2(4) [symmetric] 2(5) [symmetric]])
    have "0 < length k" using file_Read_length [OF 2(3)] 2(2) by simp
    with less.hyps [OF lt 2(6) less.prems(2)] show ?thesis by auto
  qed
qed

text \<open>The bytes a block takes in the file, as \<open>BuildSparseIndex\<close> adds them up.\<close>

fun block_bytes :: "KeyValue list \<Rightarrow> int" where
  "block_bytes [] = 0"
| "block_bytes (kv # kvs) = 4 + int (length (fst kv)) + 4 + int (length (snd kv)) + block_bytes kvs"

lemma block_bytes_nonneg: "0 \<le> block_bytes bd"
  by (induction bd) auto

lemma block_bytes_pos: "bd \<noteq> [] \<Longrightarrow> 0 < block_bytes bd"
  using block_bytes_nonneg [of "tl bd"] by (cases bd) auto

definition index_left :: "SSTable \<times> SparseIndex list \<times> int \<Rightarrow> nat" where
  "index_left p =
     (case sst_file (fst p) of
        None \<Rightarrow> 0
      | Some f \<Rightarrow> length (content f) - nat (snd (snd p)))"

lemma BuildSparseIndex_step:
  assumes "(Inr bd, s') = readBlockFromOffset s off" and "bd \<noteq> []"
  shows "index_left (s', idx', off + block_bytes bd) < index_left (s, idx, off)"
proof -
  from assms(1) obtain f1 fo' where
    seek: "file_Seek (sst_file s) off = (None, f1)" and
    loop: "readBlock_loop f1 [] = (Inr bd, fo')" and s': "s' = s\<lparr>sst_file := fo'\<rparr>"
    by (auto simp: readBlockFromOffset_def split: prod.splits option.splits)
  from seek obtain f where f: "sst_file s = Some f" "0 \<le> off" "f1 = Some (f\<lparr>pos := nat off\<rparr>)"
    by (auto simp: file_Seek_def split: option.splits if_splits)
  from readBlock_loop_first [OF loop] assms(2) f
  have room: "nat off + 4 \<le> length (content f)" by auto
  from readBlock_loop_content [OF loop f(3)] obtain g' where
    g': "fo' = Some g'" "content g' = content f" by auto
  have "0 < block_bytes bd" by (rule block_bytes_pos [OF assms(2)])
  then show ?thesis using room f g' s' by (simp add: index_left_def nat_add_distrib)
qed

text \<open>
  The loop of \<open>BuildSparseIndex\<close>, with the index built so far and the offset of the next
  block; it returns the index, which the caller stores when there was no error.
\<close>

function BuildSparseIndex_loop ::
  "SSTable \<Rightarrow> SparseIndex list \<Rightarrow> int \<Rightarrow> error option \<times> SSTable \<times> SparseIndex list" where
  "BuildSparseIndex_loop s sparseIndex blockOffset =
     (case readBlockFromOffset s blockOffset of
        (Inl e, s') \<Rightarrow> (Some e, s', sparseIndex)
      | (Inr blockData, s') \<Rightarrow>
          if blockData = [] then (None, s', sparseIndex)
          else BuildSparseIndex_loop s'
                 (sparseIndex @
                    [\<lparr> startKey = fst (hd blockData), endKey = fst (last blockData),
                       isize = block_bytes blockData, offset = blockOffset \<rparr>])
                 (blockOffset + block_bytes blockData))"
  by pat_completeness auto
termination
  by (relation "measure index_left") (auto simp: BuildSparseIndex_step)

declare BuildSparseIndex_loop.simps [simp del]

definition BuildSparseIndex :: "SSTable \<Rightarrow> error option \<times> SSTable" where
  "BuildSparseIndex s =
     (case file_Seek (sst_file s) 0 of
        (Some e, f) \<Rightarrow> (Some e, s\<lparr>sst_file := f\<rparr>)
      | (None, f) \<Rightarrow>
          (case BuildSparseIndex_loop (s\<lparr>sst_file := f\<rparr>) [] 0 of
             (Some e, s', idx) \<Rightarrow> (Some e, s')
           | (None, s', idx) \<Rightarrow> (None, s'\<lparr>sparseIndexs := idx\<rparr>)))"

text \<open>
  The loop of \<open>binarySearchInBlock\<close>; \<open>left\<close>, \<open>right\<close> and \<open>mid\<close> are Go ints, and an
  index outside the block would panic.
\<close>

function bsearch_loop :: "KeyValue list \<Rightarrow> byte list \<Rightarrow> int \<Rightarrow> int \<Rightarrow> error + byte list option" where
  "bsearch_loop blockData k left right =
     (if left \<le> right
      then (let mid = left + (right - left) div 2
            in if mid < 0 \<or> int (length blockData) \<le> mid then Inl PanicIndexOutOfRange
               else (let cmp = bytes_Compare (fst (blockData ! nat mid)) k
                     in if cmp = 0 then Inr (Some (snd (blockData ! nat mid)))
                        else if cmp < 0 then bsearch_loop blockData k (mid + 1) right
                        else bsearch_loop blockData k left (mid - 1)))
      else Inr None)"
  by pat_completeness auto
termination
  by (relation "measure (\<lambda>(b, k, l, r). nat (r - l + 1))") auto

declare bsearch_loop.simps [simp del]

definition binarySearchInBlock ::
  "SSTable \<Rightarrow> SparseIndex \<Rightarrow> byte list \<Rightarrow> (error + byte list option) \<times> SSTable" where
  "binarySearchInBlock s sp k =
     (case readBlockFromOffset s (offset sp) of
        (Inl e, s') \<Rightarrow> (Inr None, s')
      | (Inr blockData, s') \<Rightarrow> (bsearch_loop blockData k 0 (int (length blockData) - 1), s'))"

fun GetValue_loop ::
  "SSTable \<Rightarrow> SparseIndex list \<Rightarrow> byte list \<Rightarrow> (error + byte list option) \<times> SSTable" where
  "GetValue_loop s [] k = (Inr None, s)"
| "GetValue_loop s (sp # sps) k =
     (if bytes_Compare (startKey sp) k \<le> 0 \<and> bytes_Compare k (endKey sp) \<le> 0
      then binarySearchInBlock s sp k
      else GetValue_loop s sps k)"

definition GetValue :: "SSTable \<Rightarrow> byte list \<Rightarrow> (error + byte list option) \<times> SSTable" where
  "GetValue s k = GetValue_loop s (sparseIndexs s) k"

text \<open>
  What the round trip of a table is stated with: the bytes \<open>WriteBlock\<close> writes for a
  block, and the pairs whose lengths the signed 32-bit prefixes hold and whose key is not
  empty.
\<close>

fun block_enc :: "KeyValue list \<Rightarrow> byte list" where
  "block_enc [] = []"
| "block_enc (kv # kvs) =
     PutInt32_be (of_nat (length (fst kv))) @ fst kv @
     PutInt32_be (of_nat (length (snd kv))) @ snd kv @ block_enc kvs"

definition kv_fits :: "KeyValue \<Rightarrow> bool" where
  "kv_fits kv = (0 < length (fst kv) \<and> length (fst kv) < 2 ^ 31 \<and> length (snd kv) < 2 ^ 31)"

text \<open>Keys strictly ascending in the order of \<open>bytes.Compare\<close>.\<close>

definition keys_ascending :: "KeyValue list \<Rightarrow> bool" where
  "keys_ascending kvs = sorted_wrt (\<lambda>a b. bytes_Compare (fst a) (fst b) < 0) kvs"

text \<open>The index of a file that holds one block: one entry, or none for an empty block.\<close>

definition one_index :: "KeyValue list \<Rightarrow> SparseIndex list" where
  "one_index kvs =
     (if kvs = [] then []
      else [\<lparr> startKey = fst (hd kvs), endKey = fst (last kvs),
              isize = block_bytes kvs, offset = 0 \<rparr>])"

section \<open>Package skiplist\<close>

subsection \<open>Nodes and the list\<close>

text \<open>
  A \<open>*Node\<close> is an address, the index of the node in the store \<open>nodes\<close> of the list, or
  nil (\<open>None\<close>).  Nodes are only ever added to the store: a node that \<open>Delete\<close> unlinks
  stays in it, unreachable, as it does on the Go heap until it is collected.  The fields of
  a node are \<open>key\<close>, \<open>value\<close> (here \<open>val\<close>) and \<open>next\<close> (here \<open>nxt\<close>), the forward
  pointers, one per level.
\<close>

record Node =
  key :: "byte list"
  val :: "byte list"
  nxt :: "nat option list"

text \<open>
  The list: the store, the address of the head, \<open>MaxLevel\<close>, and the random source.  The
  source is seeded and then only asked \<open>s.RNG.Float64() < s.p\<close>: it is modelled by the
  sequence of the answers to that question, \<open>RNG\<close>, and the number of answers taken so
  far, \<open>drawn\<close>.
\<close>

record SkipList =
  nodes :: "Node list"
  Head :: nat
  MaxLevel :: nat
  RNG :: "nat \<Rightarrow> bool"
  drawn :: nat

text \<open>\<open>New(seed)\<close>, with the answers of the source that the seed determines.\<close>

definition skiplist_New :: "(nat \<Rightarrow> bool) \<Rightarrow> SkipList" where
  "skiplist_New coins =
     \<lparr> nodes = [\<lparr> key = [], val = [], nxt = replicate 100 None \<rparr>],
       Head = 0, MaxLevel = 100, RNG = coins, drawn = 0 \<rparr>"

subsection \<open>The search\<close>

text \<open>
  The inner loop of every search, at level \<open>i\<close> from node \<open>x\<close>:
  \<^verbatim>\<open>for x.next[i] != nil && bytes.Compare(x.next[i].key, key) < 0 { x = x.next[i] }\<close>.
  Indexing \<open>next\<close> beyond its length panics.  The loop runs on fuel: a walk that takes
  more steps than the store has nodes has come back to a node it left, and then runs
  forever; with the fuel spent the result is \<open>NoReturn\<close>.
\<close>

fun walk :: "Node list \<Rightarrow> nat \<Rightarrow> byte list \<Rightarrow> nat \<Rightarrow> nat \<Rightarrow> error + nat" where
  "walk h i k 0 x = Inl NoReturn"
| "walk h i k (Suc fuel) x =
     (if length h \<le> x then Inl PanicNilPointer
      else if length (nxt (h ! x)) \<le> i then Inl PanicIndexOutOfRange
      else (case nxt (h ! x) ! i of
              None \<Rightarrow> Inr x
            | Some y \<Rightarrow>
                if length h \<le> y then Inl PanicNilPointer
                else if bytes_Compare (key (h ! y)) k < 0 then walk h i k fuel y
                else Inr x))"

text \<open>
  The outer loop, \<^verbatim>\<open>for i := s.MaxLevel - 1; i >= 0; i--\<close>, with \<open>n\<close> levels still to
  visit: as \<open>Get\<close> and \<open>Scan\<close> run it, and as \<open>Put\<close> and \<open>Delete\<close> run it, recording
  in \<open>update[i]\<close> the node each level ends at.
\<close>

fun descend :: "Node list \<Rightarrow> byte list \<Rightarrow> nat \<Rightarrow> nat \<Rightarrow> error + nat" where
  "descend h k 0 x = Inr x"
| "descend h k (Suc i) x =
     (case walk h i k (length h) x of
        Inl e \<Rightarrow> Inl e
      | Inr x' \<Rightarrow> descend h k i x')"

fun descend_update ::
  "Node list \<Rightarrow> byte list \<Rightarrow> nat \<Rightarrow> nat \<Rightarrow> nat option list \<Rightarrow> error + nat \<times> nat option list" where
  "descend_update h k 0 x update = Inr (x, update)"
| "descend_update h k (Suc i) x update =
     (case walk h i k (length h) x of
        Inl e \<Rightarrow> Inl e
      | Inr x' \<Rightarrow>
          if length update \<le> i then Inl PanicIndexOutOfRange
          else descend_update h k i x' (update[i := Some x']))"

text \<open>\<open>x.next[i]\<close> for a pointer \<open>x\<close> that is not nil.\<close>

definition next_at :: "Node list \<Rightarrow> nat \<Rightarrow> nat \<Rightarrow> error + nat option" where
  "next_at h x i =
     (if length h \<le> x then Inl PanicNilPointer
      else if length (nxt (h ! x)) \<le> i then Inl PanicIndexOutOfRange
      else Inr (nxt (h ! x) ! i))"

subsection \<open>Put\<close>

text \<open>
  The level of a new node: \<^verbatim>\<open>for lvl < s.MaxLevel && s.RNG.Float64() < s.p { lvl++ }\<close>.
  The source is asked only while \<open>lvl < MaxLevel\<close>.  The result is the level and the
  number of answers taken.
\<close>

function level_loop :: "(nat \<Rightarrow> bool) \<Rightarrow> nat \<Rightarrow> nat \<Rightarrow> nat \<Rightarrow> nat \<times> nat" where
  "level_loop rng d m lvl =
     (if lvl < m
      then (if rng d then level_loop rng (Suc d) m (Suc lvl) else (lvl, Suc d))
      else (lvl, d))"
  by pat_completeness auto
termination
  by (relation "measure (\<lambda>(rng, d, m, lvl). m - lvl)") auto

declare level_loop.simps [simp del]

text \<open>
  The linking loop of \<open>Put\<close> over the levels that remain, for the new node \<open>n\<close>:
  \<^verbatim>\<open>n.next[i] = update[i].next[i]; update[i].next[i] = n\<close>.
\<close>

fun link_loop :: "Node list \<Rightarrow> nat option list \<Rightarrow> nat \<Rightarrow> nat list \<Rightarrow> error + Node list" where
  "link_loop h update n [] = Inr h"
| "link_loop h update n (i # is) =
     (if length update \<le> i then Inl PanicIndexOutOfRange
      else (case update ! i of
              None \<Rightarrow> Inl PanicNilPointer
            | Some u \<Rightarrow>
                (case next_at h u i of
                   Inl e \<Rightarrow> Inl e
                 | Inr succ \<Rightarrow>
                     if length h \<le> n then Inl PanicNilPointer
                     else if length (nxt (h ! n)) \<le> i then Inl PanicIndexOutOfRange
                     else (let h1 = h[n := (h ! n)\<lparr>nxt := (nxt (h ! n))[i := succ]\<rparr>];
                               h2 = h1[u := (h1 ! u)\<lparr>nxt := (nxt (h1 ! u))[i := Some n]\<rparr>]
                           in link_loop h2 update n is))))"

text \<open>
  \<open>Put\<close> returns its error, which is nil unless the call panics or does not return, and
  the list after the call.
\<close>

definition SkipList_Put :: "SkipList \<Rightarrow> byte list \<Rightarrow> byte list \<Rightarrow> error option \<times> SkipList" where
  "SkipList_Put s k v =
     (case descend_update (nodes s) k (MaxLevel s) (Head s) (replicate (MaxLevel s) None) of
        Inl e \<Rightarrow> (Some e, s)
      | Inr (x, update) \<Rightarrow>
          (case next_at (nodes s) x 0 of
             Inl e \<Rightarrow> (Some e, s)
           | Inr x0 \<Rightarrow>
               if (case x0 of None \<Rightarrow> False
                   | Some y \<Rightarrow> y < length (nodes s) \<and> bytes_Compare (key (nodes s ! y)) k = 0)
               then (None, s\<lparr>nodes := (nodes s)[the x0 := (nodes s ! the x0)\<lparr>val := v\<rparr>]\<rparr>)
               else (case level_loop (RNG s) (drawn s) (MaxLevel s) 1 of
                       (lvl, d) \<Rightarrow>
                         (let n = length (nodes s);
                              h = nodes s @ [\<lparr> key = k, val = v, nxt = replicate lvl None \<rparr>]
                          in case link_loop h update n [0 ..< lvl] of
                               Inl e \<Rightarrow> (Some e, s\<lparr>drawn := d\<rparr>)
                             | Inr h' \<Rightarrow> (None, s\<lparr>nodes := h', drawn := d\<rparr>)))))"

subsection \<open>Get\<close>

definition SkipList_Get :: "SkipList \<Rightarrow> byte list \<Rightarrow> error + byte list" where
  "SkipList_Get s k =
     (case descend (nodes s) k (MaxLevel s) (Head s) of
        Inl e \<Rightarrow> Inl e
      | Inr x \<Rightarrow>
          (case next_at (nodes s) x 0 of
             Inl e \<Rightarrow> Inl e
           | Inr None \<Rightarrow> Inl ErrNotFound
           | Inr (Some y) \<Rightarrow>
               if length (nodes s) \<le> y then Inl PanicNilPointer
               else if bytes_Compare (key (nodes s ! y)) k = 0 then Inr (val (nodes s ! y))
               else Inl ErrNotFound))"

subsection \<open>Delete\<close>

text \<open>
  The unlinking loop of \<open>Delete\<close> over the levels that remain, for the node \<open>x\<close> found:
  \<^verbatim>\<open>if update[i].next[i] == x { update[i].next[i] = x.next[i] }\<close>.
\<close>

fun unlink_loop :: "Node list \<Rightarrow> nat option list \<Rightarrow> nat \<Rightarrow> nat list \<Rightarrow> error + Node list" where
  "unlink_loop h update x [] = Inr h"
| "unlink_loop h update x (i # is) =
     (if length update \<le> i then Inl PanicIndexOutOfRange
      else (case update ! i of
              None \<Rightarrow> Inl PanicNilPointer
            | Some u \<Rightarrow>
                (case next_at h u i of
                   Inl e \<Rightarrow> Inl e
                 | Inr succ \<Rightarrow>
                     if succ = Some x
                     then (case next_at h x i of
                             Inl e \<Rightarrow> Inl e
                           | Inr after \<Rightarrow>
                               unlink_loop (h[u := (h ! u)\<lparr>nxt := (nxt (h ! u))[i := after]\<rparr>])
                                 update x is)
                     else unlink_loop h update x is)))"

definition SkipList_Delete :: "SkipList \<Rightarrow> byte list \<Rightarrow> error option \<times> SkipList" where
  "SkipList_Delete s k =
     (case descend_update (nodes s) k (MaxLevel s) (Head s) (replicate (MaxLevel s) None) of
        Inl e \<Rightarrow> (Some e, s)
      | Inr (x, update) \<Rightarrow>
          (case next_at (nodes s) x 0 of
             Inl e \<Rightarrow> (Some e, s)
           | Inr None \<Rightarrow> (Some ErrNotFound, s)
           | Inr (Some y) \<Rightarrow>
               if length (nodes s) \<le> y then (Some PanicNilPointer, s)
               else if bytes_Compare (key (nodes s ! y)) k \<noteq> 0 then (Some ErrNotFound, s)
               else (case unlink_loop (nodes s) update y [0 ..< MaxLevel s] of
                       Inl e \<Rightarrow> (Some e, s)
                     | Inr h' \<Rightarrow> (None, s\<lparr>nodes := h'\<rparr>))))"

subsection \<open>Scan\<close>

text \<open>
  The iterator: the current node and the end bound; nil is \<open>None\<close> for both.  The bounds
  of \<open>Scan\<close> are options for the same reason: \<open>None\<close> is the nil slice, \<open>Some b\<close> a
  slice that is not nil, \<open>Some []\<close> the empty one among them.
\<close>

record scanIter =
  cur :: "nat option"
  it_end :: "byte list option"

text \<open>
  \<open>append([]byte(nil), b...)\<close>: the copy that \<open>Scan\<close> makes of its end bound.
  Appending no element to the nil slice returns the nil slice, so the copy of an empty
  slice is nil.  (\<open>Next\<close> copies the key and the value it returns the same way; they are
  returned here as their bytes.)
\<close>

definition append_nil :: "byte list \<Rightarrow> byte list option" where
  "append_nil b = (if b = [] then None else Some b)"

text \<open>
  The end bound that \<open>Scan\<close> stores in the iterator:
  \<open>if end != nil { end = append([]byte(nil), end...) }\<close>.
\<close>

definition Scan_end :: "byte list option \<Rightarrow> byte list option" where
  "Scan_end fin = (case fin of None \<Rightarrow> None | Some e \<Rightarrow> append_nil e)"

definition SkipList_Scan ::
  "SkipList \<Rightarrow> byte list option \<Rightarrow> byte list option \<Rightarrow> error + scanIter" where
  "SkipList_Scan s start fin =
     (case (case start of
              None \<Rightarrow> Inr (Head s)
            | Some k \<Rightarrow> descend (nodes s) k (MaxLevel s) (Head s)) of
        Inl e \<Rightarrow> Inl e
      | Inr x \<Rightarrow>
          (case next_at (nodes s) x 0 of
             Inl e \<Rightarrow> Inl e
           | Inr c \<Rightarrow> Inr \<lparr> cur = c, it_end = Scan_end fin \<rparr>))"

text \<open>
  \<open>Next\<close> reads the nodes of the list the iterator was made for.  It returns the pair,
  or \<open>None\<close> for \<open>ok = false\<close>, and the iterator after the call.
\<close>

definition scanIter_Next ::
  "Node list \<Rightarrow> scanIter \<Rightarrow> (error + (byte list \<times> byte list) option) \<times> scanIter" where
  "scanIter_Next h it =
     (case cur it of
        None \<Rightarrow> (Inr None, it)
      | Some c \<Rightarrow>
          if length h \<le> c then (Inl PanicNilPointer, it)
          else if (case it_end it of None \<Rightarrow> False | Some e \<Rightarrow> bytes_Compare (key (h ! c)) e \<ge> 0)
          then (Inr None, it\<lparr>cur := None\<rparr>)
          else (case next_at h c 0 of
                  Inl e \<Rightarrow> (Inl e, it)
                | Inr c' \<Rightarrow> (Inr (Some (key (h ! c), val (h ! c))), it\<lparr>cur := c'\<rparr>)))"

text \<open>
  Everything an iterator yields: \<open>Next\<close> until it answers \<open>ok = false\<close>, on fuel as the
  walk is.
\<close>

fun iter_collect :: "Node list \<Rightarrow> nat \<Rightarrow> scanIter \<Rightarrow> error + (byte list \<times> byte list) list" where
  "iter_collect h 0 it = Inl NoReturn"
| "iter_collect h (Suc fuel) it =
     (case scanIter_Next h it of
        (Inl e, it') \<Rightarrow> Inl e
      | (Inr None, it') \<Rightarrow> Inr []
      | (Inr (Some kv), it') \<Rightarrow>
          (case iter_collect h fuel it' of Inl e \<Rightarrow> Inl e | Inr kvs \<Rightarrow> Inr (kv # kvs)))"

definition Scan_all ::
  "SkipList \<Rightarrow> byte list option \<Rightarrow> byte list option \<Rightarrow> error + (byte list \<times> byte list) list" where
  "Scan_all s start fin =
     (case SkipList_Scan s start fin of
        Inl e \<Rightarrow> Inl e
      | Inr it \<Rightarrow> iter_collect (nodes s) (Suc (length (nodes s))) it)"

subsection \<open>Sequences of operations and their meaning\<close>

datatype sl_op = DoPut "byte list" "byte list" | DoDelete "byte list"

text \<open>A list reached by \<open>Put\<close> and \<open>Delete\<close> calls, whatever each call returns.\<close>

fun sl_apply :: "SkipList \<Rightarrow> sl_op \<Rightarrow> SkipList" where
  "sl_apply s (DoPut k v) = snd (SkipList_Put s k v)"
| "sl_apply s (DoDelete k) = snd (SkipList_Delete s k)"

definition sl_run :: "SkipList \<Rightarrow> sl_op list \<Rightarrow> SkipList" where
  "sl_run s ops = foldl sl_apply s ops"

text \<open>
  The reference the list is compared with: the map from keys to current values that the
  operations describe.
\<close>

fun ref_apply :: "(byte list \<rightharpoonup> byte list) \<Rightarrow> sl_op \<Rightarrow> (byte list \<rightharpoonup> byte list)" where
  "ref_apply m (DoPut k v) = m(k \<mapsto> v)"
| "ref_apply m (DoDelete k) = m(k := None)"

definition ref_run :: "sl_op list \<Rightarrow> (byte list \<rightharpoonup> byte list)" where
  "ref_run ops = foldl ref_apply Map.empty ops"

text \<open>A key within the bounds of a scan: at or after \<open>start\<close> and before the end.\<close>

definition in_bounds :: "byte list option \<Rightarrow> byte list option \<Rightarrow> byte list \<Rightarrow> bool" where
  "in_bounds start fin k =
     ((case start of None \<Rightarrow> True | Some a \<Rightarrow> bytes_Compare a k \<le> 0)
      \<and> (case fin of None \<Rightarrow> True | Some b \<Rightarrow> bytes_Compare k b < 0))"

subsection \<open>Notions for the proofs\<close>

text \<open>
  The lane of a level: the nodes reached from a node by following \<open>next[i]\<close>, up to the
  pointer that ends it.  The invariant of a list says that every level has a lane from the
  head that ends in nil, with strictly ascending keys, each level a subset of the one below.
  The remaining notions name the node a search stops at, the entries of a lane, and the
  stores that \<open>Put\<close> and \<open>Delete\<close> leave.
\<close>

fun chain :: "Node list \<Rightarrow> nat \<Rightarrow> nat \<Rightarrow> nat list \<Rightarrow> nat option \<Rightarrow> bool" where
  "chain h i x [] e \<longleftrightarrow> x < length h \<and> i < length (nxt (h ! x)) \<and> nxt (h ! x) ! i = e"
| "chain h i x (y # ys) e \<longleftrightarrow>
     x < length h \<and> i < length (nxt (h ! x)) \<and> nxt (h ! x) ! i = Some y \<and> chain h i y ys e"

definition klt :: "Node list \<Rightarrow> byte list \<Rightarrow> nat \<Rightarrow> bool" where
  "klt h k a = (bytes_Compare (key (h ! a)) k < 0)"

definition ascending :: "Node list \<Rightarrow> nat list \<Rightarrow> bool" where
  "ascending h xs = sorted_wrt (\<lambda>a b. bytes_Compare (key (h ! a)) (key (h ! b)) < 0) xs"

definition sl_inv :: "SkipList \<Rightarrow> (nat \<Rightarrow> nat list) \<Rightarrow> bool" where
  "sl_inv s L =
     (0 < MaxLevel s
      \<and> (\<forall>i < MaxLevel s.
            chain (nodes s) i (Head s) (L i) None \<and> ascending (nodes s) (L i)
            \<and> Head s \<notin> set (L i))
      \<and> (\<forall>i. Suc i < MaxLevel s \<longrightarrow> set (L (Suc i)) \<subseteq> set (L i)))"

definition pred_at :: "Node list \<Rightarrow> byte list \<Rightarrow> nat \<Rightarrow> nat list \<Rightarrow> nat" where
  "pred_at h k x xs = last (x # takeWhile (klt h k) xs)"

definition sl_entries :: "Node list \<Rightarrow> nat list \<Rightarrow> (byte list \<times> byte list) list" where
  "sl_entries h xs = map (\<lambda>a. (key (h ! a), val (h ! a))) xs"

definition head_opt :: "nat list \<Rightarrow> nat option" where
  "head_opt xs = (case xs of [] \<Rightarrow> None | b # bs \<Rightarrow> Some b)"

definition same_shape :: "Node list \<Rightarrow> Node list \<Rightarrow> bool" where
  "same_shape h h' =
     (length h' = length h
      \<and> (\<forall>a < length h. key (h' ! a) = key (h ! a) \<and> val (h' ! a) = val (h ! a)
            \<and> length (nxt (h' ! a)) = length (nxt (h ! a))))"

definition set_next :: "Node list \<Rightarrow> nat \<Rightarrow> nat \<Rightarrow> nat option \<Rightarrow> Node list" where
  "set_next h a i e = h[a := (h ! a)\<lparr>nxt := (nxt (h ! a))[i := e]\<rparr>]"

definition inserted ::
  "Node list \<Rightarrow> Node list \<Rightarrow> byte list \<Rightarrow> byte list \<Rightarrow> nat \<Rightarrow> (nat \<Rightarrow> nat) \<Rightarrow> bool" where
  "inserted h h' k v lvl P =
     (length h' = Suc (length h)
      \<and> key (h' ! length h) = k \<and> val (h' ! length h) = v \<and> length (nxt (h' ! length h)) = lvl
      \<and> (\<forall>a < length h.
            key (h' ! a) = key (h ! a) \<and> val (h' ! a) = val (h ! a)
            \<and> length (nxt (h' ! a)) = length (nxt (h ! a))
            \<and> (\<forall>l < length (nxt (h ! a)).
                  nxt (h' ! a) ! l = (if l < lvl \<and> a = P l then Some (length h) else nxt (h ! a) ! l)))
      \<and> (\<forall>l < lvl. nxt (h' ! length h) ! l = nxt (h ! P l) ! l))"

definition removed :: "Node list \<Rightarrow> Node list \<Rightarrow> nat \<Rightarrow> nat \<Rightarrow> (nat \<Rightarrow> nat) \<Rightarrow> bool" where
  "removed h h' x m P =
     (same_shape h h'
      \<and> (\<forall>a < length h. \<forall>l < length (nxt (h ! a)).
            nxt (h' ! a) ! l =
              (if l < m \<and> a = P l \<and> nxt (h ! a) ! l = Some x then nxt (h ! x) ! l
               else nxt (h ! a) ! l)))"

definition before :: "Node list \<Rightarrow> byte list option \<Rightarrow> nat \<Rightarrow> bool" where
  "before h fin a = (case fin of None \<Rightarrow> True | Some e \<Rightarrow> bytes_Compare (key (h ! a)) e < 0)"

definition scan_from :: "Node list \<Rightarrow> byte list option \<Rightarrow> nat list \<Rightarrow> nat list" where
  "scan_from h start xs = (case start of None \<Rightarrow> xs | Some a \<Rightarrow> dropWhile (klt h a) xs)"

section \<open>Package lsm\<close>

subsection \<open>The directory of the engine\<close>

text \<open>
  What the engine reaches through the operating system: the file \<open>wal.log\<close> (\<open>None\<close> when
  the directory has none), the table files \<open>data_N.sst\<close> by their number, and the
  failures the calls of the engine can meet: opening a log that is there for reading
  fails, opening the log for appending fails, creating a table file fails, a new file
  accepts only so many bytes, truncating the log fails.
\<close>

record Disk =
  wal_log :: "Device option"
  tables :: "int \<Rightarrow> byte list option"
  read_fails :: bool
  open_fails :: bool
  create_fails :: bool
  create_room :: "nat option"
  truncate_fails :: bool

text \<open>
  Modelled from the spec: \<open>sstable.NewWriter\<close> and \<open>Writer.WriteFromSkipList\<close>, which
  \<open>Flush\<close> calls, are not among the sources.  The spec says that a flush serializes the
  entire current memtable, by an ordered scan, into the new table file, as a single block in
  the format of \<open>WriteBlock\<close>; the file after the call is returned with the error.
\<close>

definition WriteFromSkipList :: "OSFile option \<Rightarrow> SkipList \<Rightarrow> error option \<times> OSFile option" where
  "WriteFromSkipList f sl =
     (case Scan_all sl None None of
        Inl e \<Rightarrow> (Some e, f)
      | Inr kvs \<Rightarrow> (case WriteBlock (NewSSTable f 0) kvs of (e, t) \<Rightarrow> (e, sst_file t)))"

text \<open>
  What the sources of the engine leave open: the answers of the random source that
  \<open>skiplist.New(1)\<close> seeds, and the table writer.  The functions of the engine take both
  as a parameter.  A table writer reads the memtable and writes to the file it is given;
  it returns its error and the file as it leaves it.
\<close>

record Env =
  seed1 :: "nat \<Rightarrow> bool"
  tableWriter :: "OSFile option \<Rightarrow> SkipList \<Rightarrow> error option \<times> OSFile option"

record Options =
  Dir :: string
  MemtableFlushThreshold :: int

text \<open>
  The engine.  Its field \<open>walFile\<close> is the open file \<open>wal.log\<close>, which is \<open>wal_log\<close> of
  the directory.  The counters \<open>sstCount\<close> and \<open>memSize\<close> and the threshold are Go
  \<open>int\<close>s; they are integers here, which is what the code computes as long as the table
  counter and the bytes put between two flushes stay below the largest \<open>int\<close>.
\<close>

record Engine =
  options :: Options
  memtable :: SkipList
  wal :: Writer
  sstCount :: int
  memSize :: int

subsection \<open>Open\<close>

text \<open>
  The replay loop of \<open>Open\<close>: \<open>Next\<close> until it answers \<open>ok = false\<close>, its error
  ignored; a Put record is put, every other record is deleted, whatever the calls return.
\<close>

definition apply_record :: "SkipList \<Rightarrow> Record \<Rightarrow> SkipList" where
  "apply_record m rec =
     (if Type rec = OpPut then snd (SkipList_Put m (Key rec) (Value rec))
      else snd (SkipList_Delete m (Key rec)))"

function replay :: "byte list \<Rightarrow> SkipList \<Rightarrow> SkipList" where
  "replay bs m =
     (case Reader_Next bs of
        ((rec, ok, e), rest) \<Rightarrow> if \<not> ok then m else replay rest (apply_record m rec))"
  by pat_completeness auto
termination
  by (relation "measure (\<lambda>(bs, m). length bs)") (auto dest: Reader_Next_shorter [OF sym])

declare replay.simps [simp del]

text \<open>
  \<open>Open\<close>: the log is replayed when \<open>os.Open\<close> returns it, and skipped on any error of
  that call; then it is opened for appending, created empty when absent, and a failure
  of that call is returned.
\<close>

definition Engine_Open :: "Env \<Rightarrow> Options \<Rightarrow> Disk \<Rightarrow> (error + Engine) \<times> Disk" where
  "Engine_Open env opts d =
     (let m0 = skiplist_New (seed1 env);
          m = (case wal_log d of
                 None \<Rightarrow> m0
               | Some f \<Rightarrow> if read_fails d then m0 else replay (data f) m0)
      in if open_fails d then (Inl ErrIO, d)
         else (Inr \<lparr> options = opts, memtable = m, wal = NewWriter, sstCount = 0, memSize = 0 \<rparr>,
               (case wal_log d of
                  None \<Rightarrow> d\<lparr>wal_log := Some \<lparr> data = [], room = create_room d \<rparr>\<rparr>
                | Some f \<Rightarrow> d)))"

subsection \<open>Flush\<close>

text \<open>\<open>e.wal.Append(rec)\<close> on the log of the directory.\<close>

definition wal_Append :: "Disk \<Rightarrow> Writer \<Rightarrow> Record \<Rightarrow> error option \<times> Writer \<times> Disk" where
  "wal_Append d w rec =
     (case wal_log d of
        None \<Rightarrow> (Some ErrInvalid, w, d)
      | Some f \<Rightarrow> (case Writer_Append w f rec of (e, w', f') \<Rightarrow> (e, w', d\<lparr>wal_log := Some f'\<rparr>)))"

text \<open>\<open>e.walFile.Truncate(0)\<close>: the log becomes empty, and the bytes it held are free again.\<close>

definition wal_Truncate :: "Disk \<Rightarrow> error option \<times> Disk" where
  "wal_Truncate d =
     (case wal_log d of
        None \<Rightarrow> (Some ErrInvalid, d)
      | Some f \<Rightarrow>
          if truncate_fails d then (Some ErrIO, d)
          else (None, d\<lparr>wal_log :=
                  Some (f\<lparr>data := [], room := map_option (\<lambda>n. n + length (data f)) (room f)\<rparr>)\<rparr>))"

text \<open>
  \<open>os.Create(path)\<close> for table \<open>n\<close>, its error dropped as \<open>Flush\<close> drops it: the file,
  empty, or nil when the call fails.
\<close>

definition os_Create :: "Disk \<Rightarrow> int \<Rightarrow> OSFile option \<times> Disk" where
  "os_Create d n =
     (if create_fails d then (None, d)
      else (Some \<lparr> content = [], pos = 0, froom = create_room d \<rparr>, d\<lparr>tables := (tables d)(n \<mapsto> [])\<rparr>))"

text \<open>The bytes of a table file reach the directory as they are written.\<close>

definition store_table :: "Disk \<Rightarrow> int \<Rightarrow> OSFile option \<Rightarrow> Disk" where
  "store_table d n f =
     (case f of None \<Rightarrow> d | Some g \<Rightarrow> d\<lparr>tables := (tables d)(n \<mapsto> content g)\<rparr>)"

definition Engine_Flush :: "Env \<Rightarrow> Disk \<Rightarrow> Engine \<Rightarrow> error option \<times> Engine \<times> Disk" where
  "Engine_Flush env d e =
     (let e1 = e\<lparr>sstCount := sstCount e + 1\<rparr>
      in case os_Create d (sstCount e1) of
           (f, d1) \<Rightarrow>
             (case tableWriter env f (memtable e1) of
                (Some err, f') \<Rightarrow> (Some err, e1, store_table d1 (sstCount e1) f')
              | (None, f') \<Rightarrow>
                  (case wal_Truncate (store_table d1 (sstCount e1) f') of
                     (terr, d2) \<Rightarrow> (terr, e1\<lparr>memtable := skiplist_New (seed1 env)\<rparr>, d2))))"

text \<open>
  \<open>Close\<close> is \<open>Flush\<close>, its error dropped, and then \<open>e.walFile.Close()\<close>, whose error it
  returns (\<open>cerr\<close>, which the file system decides): an engine that is closed by \<open>Close\<close>
  has been flushed.
\<close>

definition Engine_Close ::
  "Env \<Rightarrow> Disk \<Rightarrow> Engine \<Rightarrow> error option \<Rightarrow> error option \<times> Engine \<times> Disk" where
  "Engine_Close env d e cerr = (case Engine_Flush env d e of (ferr, e', d') \<Rightarrow> (cerr, e', d'))"

subsection \<open>Put, Get, Delete\<close>

definition Engine_Put ::
  "Env \<Rightarrow> Disk \<Rightarrow> Engine \<Rightarrow> byte list \<Rightarrow> byte list \<Rightarrow> error option \<times> Engine \<times> Disk" where
  "Engine_Put env d e k v =
     (case wal_Append d (wal e) \<lparr> Type = OpPut, Key = k, Value = v \<rparr> of
        (aerr, w, d1) \<Rightarrow>
          (case SkipList_Put (memtable e) k v of
             (err, m) \<Rightarrow>
               (let e1 = e\<lparr>wal := w, memSize := memSize e + int (length k) + int (length v),
                            memtable := m\<rparr>
                in if MemtableFlushThreshold (options e1) > 0
                      \<and> memSize e1 \<ge> MemtableFlushThreshold (options e1)
                   then (case Engine_Flush env d1 e1 of
                           (ferr, e2, d2) \<Rightarrow> (err, e2\<lparr>memSize := 0\<rparr>, d2))
                   else (err, e1, d1))))"

definition Engine_Get :: "Engine \<Rightarrow> byte list \<Rightarrow> error + byte list" where
  "Engine_Get e k = SkipList_Get (memtable e) k"

definition Engine_Delete ::
  "Env \<Rightarrow> Disk \<Rightarrow> Engine \<Rightarrow> byte list \<Rightarrow> error option \<times> Engine \<times> Disk" where
  "Engine_Delete env d e k =
     (case wal_Append d (wal e) \<lparr> Type = OpDelete, Key = k, Value = [] \<rparr> of
        (aerr, w, d1) \<Rightarrow>
          (case SkipList_Delete (memtable e) k of
             (err, m) \<Rightarrow> (err, e\<lparr>wal := w, memtable := m\<rparr>, d1)))"

subsection \<open>Scenarios\<close>

text \<open>
  An empty directory where every call succeeds, the environment used for the concrete
  scenarios (the coin of the random source always fails, the table writer is the one
  modelled from the spec), and running a list of operations through the engine, whatever
  each call returns.
\<close>

definition disk_empty :: Disk where
  "disk_empty =
     \<lparr> wal_log = None, tables = (\<lambda>n. None), read_fails = False, open_fails = False,
       create_fails = False,
       create_room = None, truncate_fails = False \<rparr>"

definition env0 :: Env where
  "env0 = \<lparr> seed1 = (\<lambda>n. False), tableWriter = WriteFromSkipList \<rparr>"

fun engine_apply :: "Env \<Rightarrow> Engine \<times> Disk \<Rightarrow> sl_op \<Rightarrow> Engine \<times> Disk" where
  "engine_apply env (e, d) (DoPut k v) = snd (Engine_Put env d e k v)"
| "engine_apply env (e, d) (DoDelete k) = snd (Engine_Delete env d e k)"

definition engine_run :: "Env \<Rightarrow> Engine \<times> Disk \<Rightarrow> sl_op list \<Rightarrow> Engine \<times> Disk" where
  "engine_run env ed ops = foldl (engine_apply env) ed ops"

text \<open>The operation a log record stands for on replay, and the record an operation logs.\<close>

definition record_op :: "Record \<Rightarrow> sl_op" where
  "record_op rec = (if Type rec = OpPut then DoPut (Key rec) (Value rec) else DoDelete (Key rec))"

fun op_record :: "sl_op \<Rightarrow> Record" where
  "op_record (DoPut k v) = \<lparr> Type = OpPut, Key = k, Value = v \<rparr>"
| "op_record (DoDelete k) = \<lparr> Type = OpDelete, Key = k, Value = [] \<rparr>"

text \<open>
  The records the reader finds in the log of a directory, in the order of the file, and
  the answer of \<open>Get\<close> for a map.
\<close>

definition wal_records :: "Disk \<Rightarrow> Record list" where
  "wal_records d = (case wal_log d of None \<Rightarrow> [] | Some f \<Rightarrow> fst (read_all (data f)))"

definition lookup :: "(byte list \<rightharpoonup> byte list) \<Rightarrow> byte list \<Rightarrow> error + byte list" where
  "lookup m k = (case m k of None \<Rightarrow> Inl ErrNotFound | Some v \<Rightarrow> Inr v)"

text \<open>
  An engine whose log writer holds no unwritten bytes and no error, on a directory whose
  log is there and accepts every write.
\<close>

definition wal_clean :: "Engine \<Rightarrow> Disk \<Rightarrow> bool" where
  "wal_clean e d =
     (pending (wal e) = [] \<and> werr (wal e) = None
      \<and> (case wal_log d of None \<Rightarrow> False | Some f \<Rightarrow> room f = None))"

section \<open>The order of keys\<close>

lemma bytes_Compare_sym: "bytes_Compare a b = - bytes_Compare b a"
  by (induction a b rule: bytes_Compare.induct) auto

lemma bytes_Compare_eq_0: "bytes_Compare a b = 0 \<longleftrightarrow> a = b"
  by (induction a b rule: bytes_Compare.induct) auto

lemma bytes_Compare_refl [simp]: "bytes_Compare a a = 0"
  by (simp add: bytes_Compare_eq_0)

lemma bytes_Compare_gt: "0 < bytes_Compare a b \<longleftrightarrow> bytes_Compare b a < 0"
  using bytes_Compare_sym [of a b] by auto

lemma bytes_Compare_trans:
  "bytes_Compare a b < 0 \<Longrightarrow> bytes_Compare b c < 0 \<Longrightarrow> bytes_Compare a c < 0"
proof (induction a b arbitrary: c rule: bytes_Compare.induct)
  case 1
  then show ?case by simp
next
  case (2 y ys)
  then show ?case by (cases c) auto
next
  case (3 x xs)
  then show ?case by simp
next
  case (4 x xs y ys)
  show ?case
  proof (cases c)
    case Nil
    with 4 show ?thesis by simp
  next
    case (Cons z zs)
    with 4 show ?thesis by (auto split: if_splits)
  qed
qed

lemma bytes_Compare_le_trans:
  "bytes_Compare a b \<le> 0 \<Longrightarrow> bytes_Compare b c < 0 \<Longrightarrow> bytes_Compare a c < 0"
  using bytes_Compare_trans [of a b c] bytes_Compare_eq_0 [of a b] by (cases "bytes_Compare a b = 0") auto

lemma bytes_Compare_trans_le:
  "bytes_Compare a b < 0 \<Longrightarrow> bytes_Compare b c \<le> 0 \<Longrightarrow> bytes_Compare a c < 0"
  using bytes_Compare_trans [of a b c] bytes_Compare_eq_0 [of b c] by (cases "bytes_Compare b c = 0") auto

lemma bytes_Compare_irrefl: "\<not> bytes_Compare a a < 0"
  by simp

section \<open>Properties of the bloom filter\<close>

lemma bloom_inv_New: "bloom_inv sz (bloom_New sz hc)"
  by (simp add: bloom_inv_def bloom_New_def)

lemma bloom_idx_less: "sz \<noteq> 0 \<Longrightarrow> bloom_idx sz s < unat sz"
  unfolding bloom_idx_def by (simp add: unat_mod_distrib unat_gt_0 )

lemma bit_index_inv:
  "bloom_inv sz f \<Longrightarrow> sz \<noteq> 0 \<Longrightarrow> bit_index f b s = Inr (bloom_idx sz s)"
  by (cases b) (simp add: bit_index_def bloom_inv_def bloom_idx_def)

lemma Add_loop_inv:
  "bloom_inv sz f \<Longrightarrow> sz \<noteq> 0 \<Longrightarrow>
   Add_loop bs s f = Inr (if bs = [] then f else f\<lparr>bitSet := (bitSet f)[bloom_idx sz s := True]\<rparr>)"
proof (induction bs arbitrary: f)
  case Nil
  then show ?case by simp
next
  case (Cons b bs)
  let ?g = "f\<lparr>bitSet := (bitSet f)[bloom_idx sz s := True]\<rparr>"
  have g: "bloom_inv sz ?g" using Cons.prems by (simp add: bloom_inv_def)
  have lt: "bloom_idx sz s < length (bitSet f)"
    using Cons.prems bloom_idx_less [of sz s] by (simp add: bloom_inv_def)
  show ?case
    using Cons.IH [OF g Cons.prems(2)] lt bit_index_inv [OF Cons.prems]
    by simp
qed

lemma MayContain_loop_inv:
  "bloom_inv sz f \<Longrightarrow> sz \<noteq> 0 \<Longrightarrow>
   MayContain_loop bs s f = Inr (bs = [] \<or> bitSet f ! bloom_idx sz s)"
proof (induction bs)
  case Nil
  then show ?case by simp
next
  case (Cons b bs)
  have lt: "bloom_idx sz s < length (bitSet f)"
    using Cons.prems bloom_idx_less [of sz s] by (simp add: bloom_inv_def)
  show ?case
    using Cons.IH [OF Cons.prems] lt bit_index_inv [OF Cons.prems]
    by auto
qed

lemma set_bits_length [simp]: "length (set_bits sz ks bs) = length bs"
  unfolding set_bits_def by (induction ks arbitrary: bs) auto

lemma set_bits_mono: "i < length bs \<Longrightarrow> bs ! i \<Longrightarrow> set_bits sz ks bs ! i"
  unfolding set_bits_def
proof (induction ks arbitrary: bs)
  case Nil
  then show ?case by simp
next
  case (Cons a ks)
  have "bs[bloom_idx sz a := True] ! i" using Cons.prems by (cases "bloom_idx sz a = i") simp_all
  with Cons.IH [of "bs[bloom_idx sz a := True]"] Cons.prems show ?case by simp
qed

lemma set_bits_member:
  "k \<in> set ks \<Longrightarrow> bloom_idx sz k < length bs \<Longrightarrow> set_bits sz ks bs ! bloom_idx sz k"
proof (induction ks arbitrary: bs)
  case Nil
  then show ?case by simp
next
  case (Cons a ks)
  show ?case
  proof (cases "k = a")
    case True
    have "set_bits sz ks (bs[bloom_idx sz k := True]) ! bloom_idx sz k"
      using Cons.prems(2) by (intro set_bits_mono) simp_all
    then show ?thesis using True by (simp add: set_bits_def)
  next
    case False
    then have "k \<in> set ks" using Cons.prems(1) by simp
    from Cons.IH [OF this, of "bs[bloom_idx sz a := True]"] Cons.prems(2)
    show ?thesis by (simp add: set_bits_def)
  qed
qed

lemma Filter_Add_inv:
  "bloom_inv sz f \<Longrightarrow> sz \<noteq> 0 \<Longrightarrow>
   Filter_Add f s = Inr (if hashes f = [] then f else f\<lparr>bitSet := (bitSet f)[bloom_idx sz s := True]\<rparr>)"
  unfolding Filter_Add_def by (rule Add_loop_inv)

lemma Add_all_inv:
  "bloom_inv sz f \<Longrightarrow> sz \<noteq> 0 \<Longrightarrow>
   Add_all f ks = Inr (if hashes f = [] then f else f\<lparr>bitSet := set_bits sz ks (bitSet f)\<rparr>)"
proof (induction ks arbitrary: f)
  case Nil
  then show ?case by (simp add: set_bits_def)
next
  case (Cons k ks)
  let ?g = "f\<lparr>bitSet := (bitSet f)[bloom_idx sz k := True]\<rparr>"
  have g: "bloom_inv sz ?g" using Cons.prems by (simp add: bloom_inv_def)
  show ?case
  proof (cases "hashes f = []")
    case True
    then show ?thesis
      using Cons.IH [OF Cons.prems] Filter_Add_inv [OF Cons.prems, of k] by simp
  next
    case False
    then show ?thesis
      using Cons.IH [OF g Cons.prems(2)] Filter_Add_inv [OF Cons.prems, of k]
      by (simp add: set_bits_def)
  qed
qed

lemma Filter_MayContain_inv:
  "bloom_inv sz f \<Longrightarrow> sz \<noteq> 0 \<Longrightarrow>
   Filter_MayContain f s = Inr (hashes f = [] \<or> bitSet f ! bloom_idx sz s)"
  unfolding Filter_MayContain_def by (rule MayContain_loop_inv)

lemma hashes_New_empty: "hashes (bloom_New sz hc) = [] \<longleftrightarrow> hc = 0"
  by (simp add: bloom_New_def unat_eq_0)

text \<open>
  Claim C9.  A filter made by \<open>New(size, hashCount)\<close> with \<open>size > 0\<close> takes every
  sequence of \<open>Add\<close> calls without a panic, and afterwards \<open>MayContain\<close> answers true for
  every key that was added.  It answers false only when the bit computed by one of the slots
  is unset, and then the key was never added.
\<close>

theorem bloom_no_false_negatives:
  assumes "sz \<noteq> 0"
  shows "\<exists>f. Add_all (bloom_New sz hc) ks = Inr f
           \<and> (\<forall>k \<in> set ks. Filter_MayContain f k = Inr True)
           \<and> (\<forall>k. Filter_MayContain f k = Inr False \<longrightarrow>
                  k \<notin> set ks \<and>
                  (\<exists>b \<in> set (hashes f). \<exists>i. bit_index f b k = Inr i \<and> i < length (bitSet f) \<and> \<not> bitSet f ! i))"
proof -
  let ?n = "bloom_New sz hc"
  let ?f = "if hashes ?n = [] then ?n else ?n\<lparr>bitSet := set_bits sz ks (bitSet ?n)\<rparr>"
  have inv0: "bloom_inv sz ?n" by (rule bloom_inv_New)
  have run: "Add_all ?n ks = Inr ?f" by (rule Add_all_inv [OF inv0 assms])
  have inv: "bloom_inv sz ?f" using inv0 by (simp add: bloom_inv_def)
  have len: "length (bitSet ?f) = unat sz" using inv by (simp add: bloom_inv_def)
  have may: "Filter_MayContain ?f k = Inr (hashes ?f = [] \<or> bitSet ?f ! bloom_idx sz k)" for k
    by (rule Filter_MayContain_inv [OF inv assms])
  have pos: "Filter_MayContain ?f k = Inr True" if "k \<in> set ks" for k
  proof (cases "hashes ?n = []")
    case True
    then show ?thesis using may [of k] by simp
  next
    case False
    have "bloom_idx sz k < length (bitSet ?n)"
      using bloom_idx_less [OF assms, of k] inv0 by (simp add: bloom_inv_def)
    from set_bits_member [OF that this] False show ?thesis using may [of k] by simp
  qed
  have neg: "k \<notin> set ks \<and>
        (\<exists>b \<in> set (hashes ?f). \<exists>i. bit_index ?f b k = Inr i \<and> i < length (bitSet ?f) \<and> \<not> bitSet ?f ! i)"
    if F: "Filter_MayContain ?f k = Inr False" for k
  proof
    show "k \<notin> set ks" using pos [of k] F by auto
    from F may [of k] have ne: "hashes ?f \<noteq> []" and unset: "\<not> bitSet ?f ! bloom_idx sz k"
      by auto
    from ne obtain b where b: "b \<in> set (hashes ?f)" by (cases "hashes ?f") auto
    have "bit_index ?f b k = Inr (bloom_idx sz k)" by (rule bit_index_inv [OF inv assms])
    moreover have "bloom_idx sz k < length (bitSet ?f)"
      using bloom_idx_less [OF assms, of k] len by simp
    ultimately show "\<exists>b \<in> set (hashes ?f). \<exists>i. bit_index ?f b k = Inr i \<and> i < length (bitSet ?f) \<and> \<not> bitSet ?f ! i"
      using b unset by blast
  qed
  from run pos neg show ?thesis by blast
qed

theorem bloom_no_false_negatives_witness:
  "(8 :: 64 word) \<noteq> 0 \<and>
   (\<exists>f. Add_all (bloom_New 8 3) [[1], [2]] = Inr f
      \<and> Filter_MayContain f [1] = Inr True \<and> Filter_MayContain f [2] = Inr True)"
  using bloom_no_false_negatives [of 8 3 "[[1], [2]]"] by auto

text \<open>
  Claim C10.  Every slot that \<open>New\<close> creates is the same unseeded FNV-64a hasher, so all
  slots of a filter compute one bit index for a key.  For \<open>size > 0\<close> and
  \<open>hashCount \<ge> 1\<close>, after any sequence of \<open>Add\<close> calls the bit array and every answer of
  \<open>MayContain\<close> are those of the filter made with \<open>hashCount = 1\<close>, and one more \<open>Add\<close>
  sets the single bit at that index in both.
\<close>

theorem bloom_hashCount_collapses:
  assumes "sz \<noteq> 0" and "hc \<noteq> 0"
  shows "(\<forall>b \<in> set (hashes (bloom_New sz hc)). \<forall>k.
            bit_index (bloom_New sz hc) b k = Inr (unat (fnv64a_write fnv_offset64 k mod sz)))
       \<and> (\<exists>f f1. Add_all (bloom_New sz hc) ks = Inr f \<and> Add_all (bloom_New sz 1) ks = Inr f1
            \<and> bitSet f = bitSet f1
            \<and> (\<forall>k. Filter_MayContain f k = Filter_MayContain f1 k)
            \<and> (\<forall>k. \<exists>f' f1'. Filter_Add f k = Inr f' \<and> Filter_Add f1 k = Inr f1'
                  \<and> bitSet f' = (bitSet f)[unat (fnv64a_write fnv_offset64 k mod sz) := True]
                  \<and> bitSet f1' = bitSet f'))"
proof -
  let ?n = "bloom_New sz hc" and ?m = "bloom_New sz 1"
  let ?f = "?n\<lparr>bitSet := set_bits sz ks (bitSet ?n)\<rparr>"
  let ?g = "?m\<lparr>bitSet := set_bits sz ks (bitSet ?m)\<rparr>"
  have hn: "hashes ?n \<noteq> []" using assms(2) by (simp add: hashes_New_empty)
  have hm: "hashes ?m \<noteq> []" by (simp add: hashes_New_empty)
  have invn: "bloom_inv sz ?n" and invm: "bloom_inv sz ?m" by (rule bloom_inv_New)+
  have runn: "Add_all ?n ks = Inr ?f" using Add_all_inv [OF invn assms(1), of ks] hn by simp
  have runm: "Add_all ?m ks = Inr ?g" using Add_all_inv [OF invm assms(1), of ks] hm by simp
  have invf: "bloom_inv sz ?f" using invn by (simp add: bloom_inv_def)
  have invg: "bloom_inv sz ?g" using invm by (simp add: bloom_inv_def)
  have bits: "bitSet ?f = bitSet ?g" by (simp add: bloom_New_def)
  have slots: "\<forall>b \<in> set (hashes ?n). \<forall>k.
      bit_index ?n b k = Inr (unat (fnv64a_write fnv_offset64 k mod sz))"
    using bit_index_inv [OF invn assms(1)] by (simp add: bloom_idx_def)
  have may: "Filter_MayContain ?f k = Filter_MayContain ?g k" for k
    using Filter_MayContain_inv [OF invf assms(1), of k]
      Filter_MayContain_inv [OF invg assms(1), of k] hn hm bits by simp
  have add: "\<exists>f' f1'. Filter_Add ?f k = Inr f' \<and> Filter_Add ?g k = Inr f1'
        \<and> bitSet f' = (bitSet ?f)[unat (fnv64a_write fnv_offset64 k mod sz) := True]
        \<and> bitSet f1' = bitSet f'" for k
    using Filter_Add_inv [OF invf assms(1), of k] Filter_Add_inv [OF invg assms(1), of k]
      hn hm bits by (simp add: bloom_idx_def)
  from slots runn runm bits may add show ?thesis by blast
qed

theorem bloom_hashCount_collapses_witness:
  "(8 :: 64 word) \<noteq> 0 \<and> (3 :: 8 word) \<noteq> 0 \<and>
   (\<exists>f f1. Add_all (bloom_New 8 3) [[1], [2]] = Inr f \<and> Add_all (bloom_New 8 1) [[1], [2]] = Inr f1
      \<and> bitSet f = bitSet f1 \<and> Filter_MayContain f [7] = Filter_MayContain f1 [7])"
  using bloom_hashCount_collapses [of 8 3 "[[1], [2]]"] by auto

section \<open>Properties of the write-ahead log\<close>

lemma Uint32_le_PutUint32_le: "Uint32_le (PutUint32_le v) = v"
  unfolding Uint32_le_def PutUint32_le_def
proof (rule bit_word_eqI)
  fix n assume "n < LENGTH(32)"
  then have n: "n < 32" by simp
  consider "n < 8" | "8 \<le> n" "n < 16" | "16 \<le> n" "n < 24" | "24 \<le> n" "n < 32"
    using n by linarith
  then show "bit (ucast ([ucast v, ucast (drop_bit 8 v), ucast (drop_bit 16 v), ucast (drop_bit 24 v)] ! 0 :: byte)
        OR push_bit 8 (ucast ([ucast v, ucast (drop_bit 8 v), ucast (drop_bit 16 v), ucast (drop_bit 24 v)] ! 1 :: byte))
        OR push_bit 16 (ucast ([ucast v, ucast (drop_bit 8 v), ucast (drop_bit 16 v), ucast (drop_bit 24 v)] ! 2 :: byte))
        OR push_bit 24 (ucast ([ucast v, ucast (drop_bit 8 v), ucast (drop_bit 16 v), ucast (drop_bit 24 v)] ! 3 :: byte)) :: 32 word) n
      = bit v n"
    by cases (auto simp: bit_simps)
qed

lemma length_PutUint32_le [simp]: "length (PutUint32_le v) = 4"
  by (simp add: PutUint32_le_def)

lemma unat_len32: "n < 2 ^ 32 \<Longrightarrow> unat (of_nat n :: 32 word) = n"
  by (simp add: unat_of_nat take_bit_nat_eq_self)

lemma ReadFull_append: "length a = n \<Longrightarrow> ReadFull n (a @ rest) = (Inr a, rest)"
  by (simp add: ReadFull_def)

lemma readBytes_append:
  "length b < 2 ^ 32 \<Longrightarrow>
   readBytes (PutUint32_le (of_nat (length b)) @ b @ rest) = (Inr b, rest)"
  by (simp add: readBytes_def ReadFull_append Uint32_le_PutUint32_le unat_len32)

lemma Reader_Next_wal_bytes:
  "wal_fits r \<Longrightarrow> Reader_Next (wal_bytes r @ rest) = ((wal_canon r, True, None), rest)"
  by (simp add: Reader_Next_def wal_bytes_def wal_fits_def wal_canon_def ReadByte_def
      readBytes_append)

lemma read_all_Nil: "read_all [] = ([], None)"
  by (simp add: read_all.simps Reader_Next_def ReadByte_def)

lemma read_all_wal_bytes:
  "wal_fits r \<Longrightarrow>
   read_all (wal_bytes r @ rest) = (wal_canon r # fst (read_all rest), snd (read_all rest))"
  by (subst read_all.simps) (simp add: Reader_Next_wal_bytes split: prod.splits)

lemma read_all_concat:
  "\<forall>r \<in> set rs. wal_fits r \<Longrightarrow>
   read_all (concat (map wal_bytes rs) @ tail) = (map wal_canon rs @ fst (read_all tail), snd (read_all tail))"
  by (induction rs) (simp_all add: read_all_wal_bytes)

lemma Writer_Append_ok:
  "pending w = [] \<Longrightarrow> werr w = None \<Longrightarrow> room d = None \<Longrightarrow>
   Writer_Append w d r = (None, w, d\<lparr>data := data d @ wal_bytes r\<rparr>)"
  by (simp add: Writer_Append_def bw_WriteByte_def bw_Write_def writeBytes_def bw_Flush_def
      dev_Write_def wal_bytes_def)

lemma Append_all_ok:
  "pending w = [] \<Longrightarrow> werr w = None \<Longrightarrow> room d = None \<Longrightarrow>
   Append_all w d rs =
     (map (\<lambda>r. None) rs, w, d\<lparr>data := data d @ concat (map wal_bytes rs)\<rparr>)"
  by (induction rs arbitrary: d) (simp_all add: Writer_Append_ok)

lemma ReadFull_short:
  "length bs < n \<Longrightarrow> \<exists>e. ReadFull n bs = (Inl e, []) \<and> (e = EOF \<or> e = ErrUnexpectedEOF)"
  by (simp add: ReadFull_def)

lemma readBytes_take_enough:
  assumes "length b < 2 ^ 32" and "4 + length b \<le> m"
  shows "readBytes (take m (PutUint32_le (of_nat (length b)) @ b @ rest))
           = (Inr b, take (m - (4 + length b)) rest)"
proof -
  have eq: "take m (PutUint32_le (of_nat (length b)) @ b @ rest)
          = PutUint32_le (of_nat (length b)) @ b @ take (m - (4 + length b)) rest"
    using assms(2) by simp
  show ?thesis unfolding eq by (rule readBytes_append [OF assms(1)])
qed

lemma readBytes_take_short:
  assumes "length b < 2 ^ 32" and "m < 4 + length b"
  shows "\<exists>e. readBytes (take m (PutUint32_le (of_nat (length b)) @ b @ rest)) = (Inl e, [])
           \<and> (e = EOF \<or> e = ErrUnexpectedEOF)"
proof (cases "m < 4")
  case True
  define xs where "xs = take m (PutUint32_le (of_nat (length b)) @ b @ rest)"
  have "length xs < 4" using True by (simp add: xs_def)
  from ReadFull_short [OF this] show ?thesis
    unfolding xs_def [symmetric] by (auto simp: readBytes_def)
next
  case False
  define ys where "ys = take (m - 4) (b @ rest)"
  have eq: "take m (PutUint32_le (of_nat (length b)) @ b @ rest)
      = PutUint32_le (of_nat (length b)) @ ys"
    using False by (simp add: ys_def)
  have "length ys < length b" using assms(2) False by (simp add: ys_def)
  from ReadFull_short [OF this] show ?thesis
    unfolding eq
    by (auto simp: readBytes_def ReadFull_append Uint32_le_PutUint32_le unat_len32 [OF assms(1)])
qed

lemma Reader_Next_Cons:
  "Reader_Next (t # xs) =
     (case readBytes xs of
        (Inl e, r1) \<Rightarrow> ((Record_zero, False, Some e), r1)
      | (Inr k, r1) \<Rightarrow>
          if t = OpPut
          then (case readBytes r1 of
                  (Inl e, r2) \<Rightarrow> ((Record_zero, False, Some e), r2)
                | (Inr v, r2) \<Rightarrow> ((\<lparr> Type = t, Key = k, Value = v \<rparr>, True, None), r2))
          else ((\<lparr> Type = t, Key = k, Value = [] \<rparr>, True, None), r1))"
  by (simp add: Reader_Next_def ReadByte_def)

lemma length_wal_bytes:
  "length (wal_bytes r) = 5 + length (Key r) + (if Type r = OpPut then 4 + length (Value r) else 0)"
  by (simp add: wal_bytes_def)

lemma Reader_Next_truncated:
  assumes fits: "wal_fits r" and n0: "0 < n" and n1: "n < length (wal_bytes r)"
  shows "\<exists>e rest. Reader_Next (take n (wal_bytes r)) = ((Record_zero, False, Some e), rest)
           \<and> (e = EOF \<or> e = ErrUnexpectedEOF)"
proof -
  define V where
    "V = (if Type r = OpPut then PutUint32_le (of_nat (length (Value r))) @ Value r else [])"
  define xs where "xs = take (n - 1) (PutUint32_le (of_nat (length (Key r))) @ Key r @ V)"
  have kl: "length (Key r) < 2 ^ 32" using fits by (simp add: wal_fits_def)
  have p: "take n (wal_bytes r) = Type r # xs"
    using n0 by (cases n) (simp_all add: wal_bytes_def xs_def V_def)
  show ?thesis
  proof (cases "n - 1 < 4 + length (Key r)")
    case True
    from readBytes_take_short [OF kl True, of V]
    obtain e where "readBytes xs = (Inl e, [])" and "e = EOF \<or> e = ErrUnexpectedEOF"
      unfolding xs_def by blast
    then show ?thesis unfolding p Reader_Next_Cons by simp
  next
    case False
    then have ge: "4 + length (Key r) \<le> n - 1" by simp
    have put: "Type r = OpPut" using n1 n0 False by (auto simp: length_wal_bytes split: if_splits)
    then have vl: "length (Value r) < 2 ^ 32" using fits by (simp add: wal_fits_def)
    define ys where "ys = take (n - 1 - (4 + length (Key r))) V"
    have rb1: "readBytes xs = (Inr (Key r), ys)"
      unfolding xs_def ys_def by (rule readBytes_take_enough [OF kl ge])
    have short: "n - 1 - (4 + length (Key r)) < 4 + length (Value r)"
      using n1 n0 put by (simp add: length_wal_bytes)
    have V: "V = PutUint32_le (of_nat (length (Value r))) @ Value r @ []"
      using put by (simp add: V_def)
    from readBytes_take_short [OF vl short, of "[]"]
    obtain e where "readBytes ys = (Inl e, [])" and "e = EOF \<or> e = ErrUnexpectedEOF"
      unfolding ys_def V by blast
    then show ?thesis unfolding p Reader_Next_Cons by (simp add: rb1 put)
  qed
qed

lemma read_all_truncated:
  assumes "wal_fits r" and "0 < n" and "n < length (wal_bytes r)"
  shows "\<exists>e. read_all (take n (wal_bytes r)) = ([], Some e) \<and> (e = EOF \<or> e = ErrUnexpectedEOF)"
  using Reader_Next_truncated [OF assms]
  by (subst read_all.simps) auto

text \<open>
  Claim C7, amended.  For every sequence of records whose key lengths, and for Put records
  value lengths, are below \<open>2 ^ 32\<close>: appending them all with \<open>Writer.Append\<close> to an
  empty log that accepts every write succeeds, and reading the resulting bytes with
  \<open>Reader.Next\<close> until it answers \<open>ok = false\<close> yields the same sequence (same types,
  same keys, and the same values for Put records; a record of another type comes back
  without a value), and the last call reports no error.
\<close>

theorem wal_round_trip:
  assumes "\<forall>r \<in> set rs. wal_fits r"
  shows "\<exists>d. Append_all NewWriter \<lparr> data = [], room = None \<rparr> rs = (map (\<lambda>r. None) rs, NewWriter, d)
           \<and> read_all (data d) = (map wal_canon rs, None)"
proof -
  let ?d = "\<lparr> data = [], room = None \<rparr> \<lparr> data := data \<lparr> data = [], room = None \<rparr> @ concat (map wal_bytes rs) \<rparr>"
  have "Append_all NewWriter \<lparr> data = [], room = None \<rparr> rs = (map (\<lambda>r. None) rs, NewWriter, ?d)"
    by (rule Append_all_ok) (simp_all add: NewWriter_def)
  moreover have "read_all (data ?d) = (map wal_canon rs, None)"
    using read_all_concat [OF assms, of "[]"] by (simp add: read_all_Nil)
  ultimately show ?thesis by blast
qed

theorem wal_round_trip_witness:
  "wal_fits \<lparr> Type = OpPut, Key = [97], Value = [1, 2] \<rparr>
   \<and> wal_fits \<lparr> Type = OpDelete, Key = [97], Value = [] \<rparr>
   \<and> (\<exists>d. Append_all NewWriter \<lparr> data = [], room = None \<rparr>
              [\<lparr> Type = OpPut, Key = [97], Value = [1, 2] \<rparr>, \<lparr> Type = OpDelete, Key = [97], Value = [] \<rparr>]
            = ([None, None], NewWriter, d)
          \<and> read_all (data d) =
              ([\<lparr> Type = OpPut, Key = [97], Value = [1, 2] \<rparr>, \<lparr> Type = OpDelete, Key = [97], Value = [] \<rparr>], None))"
proof -
  have h: "\<forall>r \<in> set [\<lparr> Type = OpPut, Key = [97], Value = [1, 2] \<rparr>, \<lparr> Type = OpDelete, Key = [97], Value = [] \<rparr>]. wal_fits r"
    by (simp add: wal_fits_def)
  show ?thesis
    using h wal_round_trip [OF h] by (simp add: wal_canon_def OpPut_def OpDelete_def wal_fits_def)
qed

text \<open>
  The claim as it stands, for every sequence of records, fails at a Put record whose key
  has \<open>2 ^ 32\<close> bytes: \<open>uint32(len(b))\<close> wraps to zero, and the reader returns a Put
  record with an empty key first.
\<close>

theorem wal_round_trip_counterexample:
  "\<exists>d. Append_all NewWriter \<lparr> data = [], room = None \<rparr>
           [\<lparr> Type = OpPut, Key = replicate (2 ^ 32) 0, Value = [] \<rparr>] = ([None], NewWriter, d)
      \<and> hd (fst (read_all (data d))) = \<lparr> Type = OpPut, Key = [], Value = [] \<rparr>
      \<and> fst (read_all (data d)) \<noteq> [\<lparr> Type = OpPut, Key = replicate (2 ^ 32) 0, Value = [] \<rparr>]"
proof -
  define big :: "byte list" where "big = replicate (2 ^ 32) 0"
  define r where "r = \<lparr> Type = OpPut, Key = big, Value = [] \<rparr>"
  define d where "d = \<lparr> data = [], room = None \<rparr> \<lparr> data := data \<lparr> data = [], room = None \<rparr> @ concat (map wal_bytes [r]) \<rparr>"
  have len: "length big = 2 ^ 32" by (simp add: big_def)
  have big4: "big = [0, 0, 0, 0] @ drop 4 big"
  proof -
    have "take 4 big = replicate 4 0" unfolding big_def take_replicate by simp
    then have "take 4 big = [0, 0, 0, 0]" by (simp add: eval_nat_numeral)
    then show ?thesis by (metis append_take_drop_id)
  qed
  have run: "Append_all NewWriter \<lparr> data = [], room = None \<rparr> [r] = (map (\<lambda>r. None) [r], NewWriter, d)"
    unfolding d_def by (rule Append_all_ok) (simp_all add: NewWriter_def)
  have z: "PutUint32_le 0 = [0, 0, 0, 0]" by (simp add: PutUint32_le_def)
  have w0: "(of_nat (length big) :: 32 word) = 0"
    unfolding len by simp
  have bytes: "data d = OpPut # ([0, 0, 0, 0] @ [] @ big @ [0, 0, 0, 0])"
    by (simp add: d_def wal_bytes_def r_def w0 z)
  have rb0: "readBytes ([0, 0, 0, 0] @ [] @ rest) = (Inr [], rest)" for rest
    using readBytes_append [of "[]" rest] by (simp add: z)
  have rb1: "readBytes ([0, 0, 0, 0] @ [] @ big @ [0, 0, 0, 0]) = (Inr [], big @ [0, 0, 0, 0])"
    by (rule rb0)
  have rb2: "readBytes (big @ [0, 0, 0, 0]) = (Inr [], drop 4 big @ [0, 0, 0, 0])"
    using rb0 [of "drop 4 big @ [0, 0, 0, 0]"] big4 by (metis append_Nil append_assoc)
  have nxt: "Reader_Next (data d) =
      ((\<lparr> Type = OpPut, Key = [], Value = [] \<rparr>, True, None), drop 4 big @ [0, 0, 0, 0])"
    unfolding bytes Reader_Next_Cons rb1 by (simp add: rb2)
  have hd: "hd (fst (read_all (data d))) = \<lparr> Type = OpPut, Key = [], Value = [] \<rparr>"
    and ne: "fst (read_all (data d)) \<noteq> []"
    by (subst read_all.simps, simp add: nxt split: prod.splits)+
  have "big \<noteq> []" using len by auto
  then have "hd (fst (read_all (data d))) \<noteq> hd [r]" unfolding hd by (simp add: r_def)
  then have "fst (read_all (data d)) \<noteq> [r]" by auto
  with run hd show ?thesis unfolding r_def big_def by auto
qed

text \<open>
  Claim C5, amended.  For a log made of \<open>N\<close> complete records (lengths below
  \<open>2 ^ 32\<close>) followed by a proper, non-empty prefix of one more record, the reader yields
  exactly the first \<open>N\<close> records and then \<open>Next\<close> answers \<open>ok = false\<close> together with
  an error, \<open>io.EOF\<close> or \<open>io.ErrUnexpectedEOF\<close>: the partial tail ends the history,
  and it is reported to the caller as an error.
\<close>

theorem wal_truncated_tail:
  assumes "\<forall>r \<in> set rs. wal_fits r" and "wal_fits r" and "0 < n" and "n < length (wal_bytes r)"
  shows "\<exists>e. read_all (concat (map wal_bytes rs) @ take n (wal_bytes r)) = (map wal_canon rs, Some e)
           \<and> (e = EOF \<or> e = ErrUnexpectedEOF)"
  using read_all_concat [OF assms(1), of "take n (wal_bytes r)"] read_all_truncated [OF assms(2-4)]
  by auto

theorem wal_truncated_tail_witness:
  "wal_fits \<lparr> Type = OpDelete, Key = [97], Value = [] \<rparr>
   \<and> wal_fits \<lparr> Type = OpPut, Key = [98], Value = [1] \<rparr>
   \<and> 3 < length (wal_bytes \<lparr> Type = OpPut, Key = [98], Value = [1] \<rparr>)
   \<and> (\<exists>e. read_all (concat (map wal_bytes [\<lparr> Type = OpDelete, Key = [97], Value = [] \<rparr>])
                   @ take 3 (wal_bytes \<lparr> Type = OpPut, Key = [98], Value = [1] \<rparr>))
              = ([\<lparr> Type = OpDelete, Key = [97], Value = [] \<rparr>], Some e)
            \<and> (e = EOF \<or> e = ErrUnexpectedEOF))"
proof -
  have h1: "\<forall>r \<in> set [\<lparr> Type = OpDelete, Key = [97], Value = [] \<rparr>]. wal_fits r"
    by (simp add: wal_fits_def)
  have h2: "wal_fits \<lparr> Type = OpPut, Key = [98], Value = [1] \<rparr>"
    by (simp add: wal_fits_def)
  have h3: "0 < (3 :: nat)" by simp
  have h4: "3 < length (wal_bytes \<lparr> Type = OpPut, Key = [98], Value = [1] \<rparr>)"
    by (simp add: wal_bytes_def)
  show ?thesis
    using h1 h2 h4 wal_truncated_tail [OF h1 h2 h3 h4]
    by (simp add: wal_canon_def OpPut_def OpDelete_def)
qed

text \<open>
  The claim as it stands, termination with no error, fails on a Delete record followed by
  the first three bytes of a Put record: the reader yields the Delete record and ends with
  \<open>io.ErrUnexpectedEOF\<close>.
\<close>

theorem wal_truncated_tail_counterexample:
  "read_all (wal_bytes \<lparr> Type = OpDelete, Key = [97], Value = [] \<rparr>
       @ take 3 (wal_bytes \<lparr> Type = OpPut, Key = [98], Value = [1] \<rparr>))
     = ([\<lparr> Type = OpDelete, Key = [97], Value = [] \<rparr>], Some ErrUnexpectedEOF)"
  by (simp add: read_all.simps Reader_Next_def ReadByte_def readBytes_def ReadFull_def
      wal_bytes_def PutUint32_le_def Uint32_le_def OpPut_def OpDelete_def Record_zero_def)

section \<open>Properties of the sorted table\<close>

lemma Int32_be_PutInt32_be: "Int32_be (PutInt32_be v) = v"
  unfolding Int32_be_def PutInt32_be_def
proof (rule bit_word_eqI)
  fix n assume "n < LENGTH(32)"
  then have n: "n < 32" by simp
  consider "n < 8" | "8 \<le> n" "n < 16" | "16 \<le> n" "n < 24" | "24 \<le> n" "n < 32"
    using n by linarith
  then show "bit (ucast ([ucast (drop_bit 24 v), ucast (drop_bit 16 v), ucast (drop_bit 8 v), ucast v] ! 3 :: byte)
        OR push_bit 8 (ucast ([ucast (drop_bit 24 v), ucast (drop_bit 16 v), ucast (drop_bit 8 v), ucast v] ! 2 :: byte))
        OR push_bit 16 (ucast ([ucast (drop_bit 24 v), ucast (drop_bit 16 v), ucast (drop_bit 8 v), ucast v] ! 1 :: byte))
        OR push_bit 24 (ucast ([ucast (drop_bit 24 v), ucast (drop_bit 16 v), ucast (drop_bit 8 v), ucast v] ! 0 :: byte)) :: 32 word) n
      = bit v n"
    by cases (auto simp: bit_simps)
qed

lemma length_PutInt32_be [simp]: "length (PutInt32_be v) = 4"
  by (simp add: PutInt32_be_def)

lemma sint_len31: "n < 2 ^ 31 \<Longrightarrow> sint (of_nat n :: 32 word) = int n"
  by (simp add: signed_of_nat signed_take_bit_int_eq_self)

lemma store_at_end [simp]: "store_at c (length c) b = c @ b"
  by (simp add: store_at_def)

lemma file_Write_end:
  "froom f = None \<Longrightarrow> pos f = length (content f) \<Longrightarrow>
   file_Write (Some f) b = (None, Some (f\<lparr>content := content f @ b, pos := length (content f) + length b\<rparr>))"
  by (simp add: file_Write_def)

lemma WriteBlock_loop_end:
  "froom f = None \<Longrightarrow> pos f = length (content f) \<Longrightarrow>
   WriteBlock_loop (Some f) kvs =
     (None, Some (f\<lparr>content := content f @ block_enc kvs,
                     pos := length (content f) + length (block_enc kvs)\<rparr>))"
proof (induction kvs arbitrary: f)
  case Nil
  then show ?case by simp
next
  case (Cons kv kvs)
  let ?e = "PutInt32_be (of_nat (length (fst kv))) @ fst kv @
     PutInt32_be (of_nat (length (snd kv))) @ snd kv"
  let ?g = "f\<lparr>content := content f @ ?e, pos := length (content f) + length ?e\<rparr>"
  have g: "froom ?g = None" "pos ?g = length (content ?g)" using Cons.prems by simp_all
  have "WriteBlock_loop (Some f) (kv # kvs) = WriteBlock_loop (Some ?g) kvs"
    using Cons.prems by (simp add: file_Write_end add.assoc)
  also have "\<dots> = (None, Some (?g\<lparr>content := content ?g @ block_enc kvs,
                     pos := length (content ?g) + length (block_enc kvs)\<rparr>))"
    by (rule Cons.IH [OF g])
  finally show ?case by (simp add: add.assoc)
qed

lemma drop_after: "drop p c = a @ rest \<Longrightarrow> drop (p + length a) c = rest"
proof -
  assume h: "drop p c = a @ rest"
  have "drop (p + length a) c = drop (length a) (drop p c)" by (simp add: add.commute)
  then show ?thesis using h by simp
qed

lemma file_ReadFull_at:
  assumes "drop (pos f) (content f) = a @ rest" and "pos f \<le> length (content f)"
  shows "file_ReadFull (Some f) (length a) = (Inr a, Some (f\<lparr>pos := pos f + length a\<rparr>))"
proof -
  have "length (drop (pos f) (content f)) = length a + length rest" using assms by simp
  then have le: "pos f + length a \<le> length (content f)" using assms(2) by simp
  have tk: "take (length a) (drop (pos f) (content f)) = a" using assms by simp
  show ?thesis using le tk by (simp add: file_ReadFull_def)
qed

lemma file_Read_at:
  assumes "drop (pos f) (content f) = a @ rest" and "pos f \<le> length (content f)"
  shows "file_Read (Some f) (length a) = (Inr a, Some (f\<lparr>pos := pos f + length a\<rparr>))"
proof (cases "a = []")
  case True
  then show ?thesis by (simp add: file_Read_def)
next
  case False
  have "length (drop (pos f) (content f)) = length a + length rest" using assms by simp
  then have "length (content f) - pos f = length a + length rest" by (simp only: length_drop)
  moreover have "0 < length a" using False by simp
  ultimately have lt: "pos f < length (content f)" by linarith
  have tk: "take (length a) (drop (pos f) (content f)) = a" using assms by simp
  show ?thesis using False lt tk by (simp add: file_Read_def Let_def)
qed

lemma pos_after:
  "drop p c = a @ rest \<Longrightarrow> p \<le> length c \<Longrightarrow> p + length a \<le> length c"
proof -
  assume h: "drop p c = a @ rest" and le: "p \<le> length c"
  have "length (drop p c) = length a + length rest" using h by simp
  then show ?thesis using le by simp
qed

lemma readBlock_loop_enc:
  assumes "\<forall>kv \<in> set kvs. kv_fits kv"
    and "drop (pos f) (content f) = block_enc kvs" and "pos f \<le> length (content f)"
  shows "readBlock_loop (Some f) r = (Inr (r @ kvs), Some (f\<lparr>pos := length (content f)\<rparr>))"
  using assms
proof (induction kvs arbitrary: f r)
  case Nil
  then have "pos f = length (content f)" by simp
  then show ?case
    by (subst readBlock_loop.simps) (simp add: file_ReadFull_def)
next
  case (Cons kv kvs)
  obtain k v where kv: "kv = (k, v)" by (cases kv)
  have fits: "0 < length k" "length k < 2 ^ 31" "length v < 2 ^ 31"
    using Cons.prems(1) kv by (simp_all add: kv_fits_def)
  define K where "K = PutInt32_be (of_nat (length k))"
  define V where "V = PutInt32_be (of_nat (length v))"
  define f1 where "f1 = f\<lparr>pos := pos f + length K\<rparr>"
  define f2 where "f2 = f1\<lparr>pos := pos f1 + length k\<rparr>"
  define f3 where "f3 = f2\<lparr>pos := pos f2 + length V\<rparr>"
  define f4 where "f4 = f3\<lparr>pos := pos f3 + length v\<rparr>"
  have c: "content f1 = content f" "content f2 = content f" "content f3 = content f"
    "content f4 = content f"
    by (simp_all add: f1_def f2_def f3_def f4_def)
  have lK: "length K = 4" and lV: "length V = 4" by (simp_all add: K_def V_def)
  have d0: "drop (pos f) (content f) = K @ (k @ V @ v @ block_enc kvs)"
    using Cons.prems(2) kv by (simp add: K_def V_def)
  have r1: "file_ReadFull (Some f) (length K) = (Inr K, Some f1)"
    unfolding f1_def by (rule file_ReadFull_at [OF d0 Cons.prems(3)])
  have d1: "drop (pos f1) (content f1) = k @ (V @ v @ block_enc kvs)"
    using drop_after [OF d0] by (simp add: f1_def)
  have p1: "pos f1 \<le> length (content f1)"
    using pos_after [OF d0 Cons.prems(3)] by (simp add: f1_def)
  have r2: "file_Read (Some f1) (length k) = (Inr k, Some f2)"
    unfolding f2_def by (rule file_Read_at [OF d1 p1])
  have d2: "drop (pos f2) (content f2) = V @ (v @ block_enc kvs)"
    using drop_after [OF d1] by (simp add: f2_def)
  have p2: "pos f2 \<le> length (content f2)"
    using pos_after [OF d1 p1] by (simp add: f2_def)
  have r3: "file_ReadFull (Some f2) (length V) = (Inr V, Some f3)"
    unfolding f3_def by (rule file_ReadFull_at [OF d2 p2])
  have d3: "drop (pos f3) (content f3) = v @ block_enc kvs"
    using drop_after [OF d2] by (simp add: f3_def)
  have p3: "pos f3 \<le> length (content f3)"
    using pos_after [OF d2 p2] by (simp add: f3_def)
  have r4: "file_Read (Some f3) (length v) = (Inr v, Some f4)"
    unfolding f4_def by (rule file_Read_at [OF d3 p3])
  have d4: "drop (pos f4) (content f4) = block_enc kvs"
    using drop_after [OF d3] by (simp add: f4_def)
  have p4: "pos f4 \<le> length (content f4)"
    using pos_after [OF d3 p3] by (simp add: f4_def)
  have sk: "sint (Int32_be K) = int (length k)"
    by (simp add: K_def Int32_be_PutInt32_be sint_len31 [OF fits(2)])
  have sv: "sint (Int32_be V) = int (length v)"
    by (simp add: V_def Int32_be_PutInt32_be sint_len31 [OF fits(3)])
  have rest: "readBlock_loop (Some f4) (r @ [(k, v)])
      = (Inr ((r @ [(k, v)]) @ kvs), Some (f4\<lparr>pos := length (content f4)\<rparr>))"
    using Cons.prems(1) by (intro Cons.IH [OF _ d4 p4]) simp
  have f4e: "f4\<lparr>pos := length (content f4)\<rparr> = f\<lparr>pos := length (content f)\<rparr>"
    by (simp add: f1_def f2_def f3_def f4_def)
  have "readBlock_loop (Some f) r = readBlock_loop (Some f4) (r @ [(k, v)])"
    using r1 r2 r3 r4 fits(1)
    by (subst readBlock_loop.simps) (simp add: lK lV sk sv)
  then show ?case using rest f4e kv by simp
qed

lemma block_bytes_enc: "block_bytes kvs = int (length (block_enc kvs))"
  by (induction kvs) auto

lemma readBlockFromOffset_start:
  assumes "\<forall>kv \<in> set kvs. kv_fits kv" and "sst_file s = Some f" and "content f = block_enc kvs"
  shows "readBlockFromOffset s 0 = (Inr kvs, s\<lparr>sst_file := Some (f\<lparr>pos := length (content f)\<rparr>)\<rparr>)"
proof -
  have "readBlock_loop (Some (f\<lparr>pos := 0\<rparr>)) []
      = (Inr ([] @ kvs), Some (f\<lparr>pos := 0\<rparr>\<lparr>pos := length (content (f\<lparr>pos := 0\<rparr>))\<rparr>))"
    by (rule readBlock_loop_enc [OF assms(1)]) (simp_all add: assms(3))
  then show ?thesis using assms(2) by (simp add: readBlockFromOffset_def file_Seek_def)
qed

lemma readBlockFromOffset_end:
  assumes "sst_file s = Some f"
  shows "readBlockFromOffset s (int (length (content f)))
      = (Inr [], s\<lparr>sst_file := Some (f\<lparr>pos := length (content f)\<rparr>)\<rparr>)"
proof -
  let ?g = "f\<lparr>pos := length (content f)\<rparr>"
  have "readBlock_loop (Some ?g) [] = (Inr ([] @ []), Some (?g\<lparr>pos := length (content ?g)\<rparr>))"
    by (rule readBlock_loop_enc) simp_all
  then show ?thesis using assms by (simp add: readBlockFromOffset_def file_Seek_def)
qed

lemma BuildSparseIndex_enc:
  assumes fits: "\<forall>kv \<in> set kvs. kv_fits kv" and f: "sst_file s = Some f"
    and c: "content f = block_enc kvs"
  shows "BuildSparseIndex s
      = (None, s\<lparr>sst_file := Some (f\<lparr>pos := length (content f)\<rparr>), sparseIndexs := one_index kvs\<rparr>)"
proof -
  let ?s0 = "s\<lparr>sst_file := Some (f\<lparr>pos := 0\<rparr>)\<rparr>"
  let ?s1 = "s\<lparr>sst_file := Some (f\<lparr>pos := length (content f)\<rparr>)\<rparr>"
  have seek: "file_Seek (sst_file s) 0 = (None, Some (f\<lparr>pos := 0\<rparr>))"
    using f by (simp add: file_Seek_def)
  have rd0: "readBlockFromOffset ?s0 0 = (Inr kvs, ?s1)"
    using readBlockFromOffset_start [OF fits, of ?s0 "f\<lparr>pos := 0\<rparr>"] c by simp
  have rd1: "readBlockFromOffset ?s1 (int (length (content f))) = (Inr [], ?s1)"
    using readBlockFromOffset_end [of ?s1 "f\<lparr>pos := length (content f)\<rparr>"] by simp
  have loop: "BuildSparseIndex_loop ?s0 [] 0 = (None, ?s1, one_index kvs)"
  proof (cases "kvs = []")
    case True
    then show ?thesis
      using rd0 by (subst BuildSparseIndex_loop.simps) (simp add: one_index_def)
  next
    case False
    have "BuildSparseIndex_loop ?s0 [] 0
        = BuildSparseIndex_loop ?s1 (one_index kvs) (int (length (content f)))"
      using rd0 False
      by (subst BuildSparseIndex_loop.simps) (simp add: one_index_def block_bytes_enc c)
    also have "\<dots> = (None, ?s1, one_index kvs)"
      using rd1 by (subst BuildSparseIndex_loop.simps) simp
    finally show ?thesis .
  qed
  show ?thesis using seek loop by (simp add: BuildSparseIndex_def)
qed

lemma keys_ascending_nth:
  "keys_ascending kvs \<Longrightarrow> i < j \<Longrightarrow> j < length kvs \<Longrightarrow>
   bytes_Compare (fst (kvs ! i)) (fst (kvs ! j)) < 0"
  by (simp add: keys_ascending_def sorted_wrt_iff_nth_less)

lemma keys_ascending_distinct: "keys_ascending kvs \<Longrightarrow> distinct (map fst kvs)"
proof -
  assume a: "keys_ascending kvs"
  have "fst (kvs ! i) \<noteq> fst (kvs ! j)" if "i < j" "j < length kvs" for i j
    using keys_ascending_nth [OF a that] by auto
  then have "map fst kvs ! i \<noteq> map fst kvs ! j" if "i < j" "j < length kvs" for i j
    using that by simp
  then show ?thesis
    by (metis distinct_conv_nth length_map nat_neq_iff)
qed

lemma map_of_nth:
  "keys_ascending kvs \<Longrightarrow> i < length kvs \<Longrightarrow> map_of kvs (fst (kvs ! i)) = Some (snd (kvs ! i))"
  using keys_ascending_distinct [of kvs] by (simp add: map_of_eq_Some_iff)

lemma map_of_None_nth:
  "(\<And>i. i < length kvs \<Longrightarrow> fst (kvs ! i) \<noteq> k) \<Longrightarrow> map_of kvs k = None"
  by (metis in_set_conv_nth map_of_eq_None_iff imageE)

lemma bsearch_loop_correct:
  "keys_ascending kvs \<Longrightarrow> 0 \<le> l \<Longrightarrow> r < int (length kvs) \<Longrightarrow>
     (\<And>i. int i < l \<Longrightarrow> i < length kvs \<Longrightarrow> bytes_Compare (fst (kvs ! i)) k < 0) \<Longrightarrow>
     (\<And>i. r < int i \<Longrightarrow> i < length kvs \<Longrightarrow> 0 < bytes_Compare (fst (kvs ! i)) k) \<Longrightarrow>
     bsearch_loop kvs k l r = Inr (map_of kvs k)"
proof (induction kvs k l r rule: bsearch_loop.induct)
  case (1 blockData k left right)
  note asc = "1.prems"(1)
  show ?case
  proof (cases "left \<le> right")
    case False
    have "fst (blockData ! i) \<noteq> k" if "i < length blockData" for i
    proof (cases "int i < left")
      case True
      from "1.prems"(4) [OF True that] show ?thesis by auto
    next
      case F: False
      then have "right < int i" using False by simp
      from "1.prems"(5) [OF this that] show ?thesis by auto
    qed
    then have "map_of blockData k = None" by (rule map_of_None_nth)
    then show ?thesis using False by (subst bsearch_loop.simps) simp
  next
    case True
    define mid where "mid = left + (right - left) div 2"
    have mid: "left \<le> mid" "mid \<le> right" using True by (simp_all add: mid_def)
    have inr: "\<not> (mid < 0 \<or> int (length blockData) \<le> mid)"
      using mid "1.prems"(2,3) by simp
    have mlt: "nat mid < length blockData" using inr by (simp add: nat_less_iff)
    define cmp where "cmp = bytes_Compare (fst (blockData ! nat mid)) k"
    consider "cmp = 0" | "cmp < 0" | "0 < cmp" by linarith
    then show ?thesis
    proof cases
      case 1
      then have "fst (blockData ! nat mid) = k" by (simp add: cmp_def bytes_Compare_eq_0)
      with map_of_nth [OF asc mlt] have "map_of blockData k = Some (snd (blockData ! nat mid))"
        by simp
      then show ?thesis using True inr 1
        by (subst bsearch_loop.simps) (simp add: mid_def [symmetric] cmp_def [symmetric] Let_def)
    next
      case 2
      have low: "bytes_Compare (fst (blockData ! i)) k < 0"
        if "int i < mid + 1" "i < length blockData" for i
      proof (cases "i = nat mid")
        case True
        then show ?thesis using 2 by (simp add: cmp_def)
      next
        case False
        then have "i < nat mid" using that(1) by linarith
        from keys_ascending_nth [OF asc this mlt] 2 show ?thesis
          unfolding cmp_def by (rule bytes_Compare_trans)
      qed
      have "bsearch_loop blockData k (mid + 1) right = Inr (map_of blockData k)"
      proof (rule "1.IH"(1) [OF True mid_def inr cmp_def])
        show "cmp \<noteq> 0" "cmp < 0" using 2 by simp_all
        show "keys_ascending blockData" by (rule asc)
        show "0 \<le> mid + 1" using mid "1.prems"(2) by simp
        show "right < int (length blockData)" by (rule "1.prems"(3))
        show "\<And>i. int i < mid + 1 \<Longrightarrow> i < length blockData \<Longrightarrow>
            bytes_Compare (fst (blockData ! i)) k < 0" by (rule low)
        show "\<And>i. right < int i \<Longrightarrow> i < length blockData \<Longrightarrow>
            0 < bytes_Compare (fst (blockData ! i)) k" by (rule "1.prems"(5))
      qed
      then show ?thesis using True inr 2
        by (subst bsearch_loop.simps) (simp add: mid_def [symmetric] cmp_def [symmetric] Let_def)
    next
      case 3
      have high: "0 < bytes_Compare (fst (blockData ! i)) k"
        if "mid - 1 < int i" "i < length blockData" for i
      proof (cases "i = nat mid")
        case True
        then show ?thesis using 3 by (simp add: cmp_def)
      next
        case False
        then have gt: "nat mid < i" using that(1) mid "1.prems"(2) by linarith
        have "bytes_Compare k (fst (blockData ! nat mid)) < 0"
          using 3 by (simp add: cmp_def bytes_Compare_gt)
        from this keys_ascending_nth [OF asc gt that(2)]
        have "bytes_Compare k (fst (blockData ! i)) < 0" by (rule bytes_Compare_trans)
        then show ?thesis by (simp add: bytes_Compare_gt)
      qed
      have "bsearch_loop blockData k left (mid - 1) = Inr (map_of blockData k)"
      proof (rule "1.IH"(2) [OF True mid_def inr cmp_def])
        show "cmp \<noteq> 0" "\<not> cmp < 0" using 3 by simp_all
        show "keys_ascending blockData" by (rule asc)
        show "0 \<le> left" by (rule "1.prems"(2))
        show "mid - 1 < int (length blockData)" using mid "1.prems"(3) by simp
        show "\<And>i. int i < left \<Longrightarrow> i < length blockData \<Longrightarrow>
            bytes_Compare (fst (blockData ! i)) k < 0" by (rule "1.prems"(4))
        show "\<And>i. mid - 1 < int i \<Longrightarrow> i < length blockData \<Longrightarrow>
            0 < bytes_Compare (fst (blockData ! i)) k" by (rule high)
      qed
      then show ?thesis using True inr 3
        by (subst bsearch_loop.simps) (simp add: mid_def [symmetric] cmp_def [symmetric] Let_def)
    qed
  qed
qed

lemma WriteBlock_fresh:
  "WriteBlock (NewSSTable (Some file_empty) bs) kvs
     = (None, \<lparr> sst_file = Some \<lparr> content = block_enc kvs, pos = length (block_enc kvs), froom = None \<rparr>,
               sparseIndexs = [], blockSize = bs \<rparr>)"
  using WriteBlock_loop_end [of file_empty kvs]
  by (simp add: WriteBlock_def NewSSTable_def file_empty_def)

lemma keys_within:
  assumes asc: "keys_ascending kvs" and i: "i < length kvs"
  shows "bytes_Compare (fst (hd kvs)) (fst (kvs ! i)) \<le> 0"
    and "bytes_Compare (fst (kvs ! i)) (fst (last kvs)) \<le> 0"
proof -
  have ne: "kvs \<noteq> []" using i by auto
  have hd: "hd kvs = kvs ! 0" using ne by (simp add: hd_conv_nth)
  have la: "last kvs = kvs ! (length kvs - 1)" using ne by (simp add: last_conv_nth)
  show "bytes_Compare (fst (hd kvs)) (fst (kvs ! i)) \<le> 0"
  proof (cases "i = 0")
    case True
    then show ?thesis by (simp add: hd)
  next
    case False
    then have "0 < i" by simp
    from keys_ascending_nth [OF asc this i] show ?thesis by (simp add: hd)
  qed
  show "bytes_Compare (fst (kvs ! i)) (fst (last kvs)) \<le> 0"
  proof (cases "i = length kvs - 1")
    case True
    then show ?thesis by (simp add: la)
  next
    case False
    then have lt: "i < length kvs - 1" using i by simp
    have "length kvs - 1 < length kvs" using i by simp
    from keys_ascending_nth [OF asc lt this] show ?thesis by (simp add: la)
  qed
qed

lemma GetValue_enc:
  assumes asc: "keys_ascending kvs" and fits: "\<forall>kv \<in> set kvs. kv_fits kv"
    and f: "sst_file s = Some f" and c: "content f = block_enc kvs"
    and idx: "sparseIndexs s = one_index kvs"
  shows "fst (GetValue s k) = Inr (map_of kvs k)"
proof (cases "kvs = []")
  case True
  then show ?thesis using idx by (simp add: GetValue_def one_index_def)
next
  case False
  define sp where "sp = \<lparr> startKey = fst (hd kvs), endKey = fst (last kvs),
              isize = block_bytes kvs, offset = 0 \<rparr>"
  have idx': "sparseIndexs s = [sp]" using idx False by (simp add: one_index_def sp_def)
  show ?thesis
  proof (cases "bytes_Compare (startKey sp) k \<le> 0 \<and> bytes_Compare k (endKey sp) \<le> 0")
    case True
    have rd: "readBlockFromOffset s (offset sp)
        = (Inr kvs, s\<lparr>sst_file := Some (f\<lparr>pos := length (content f)\<rparr>)\<rparr>)"
      using readBlockFromOffset_start [OF fits f c] by (simp add: sp_def)
    have "bsearch_loop kvs k 0 (int (length kvs) - 1) = Inr (map_of kvs k)"
      by (rule bsearch_loop_correct [OF asc]) simp_all
    then show ?thesis using True idx' rd by (simp add: GetValue_def binarySearchInBlock_def)
  next
    case out: False
    have "fst (kvs ! i) \<noteq> k" if "i < length kvs" for i
      using keys_within [OF asc that] out by (auto simp: sp_def)
    then have m: "map_of kvs k = None" by (rule map_of_None_nth)
    show ?thesis by (simp add: GetValue_def idx' out m)
  qed
qed

text \<open>
  Claim C6, amended.  For every sequence of pairs whose keys are strictly ascending, with
  every key non-empty and every key and value shorter than \<open>2 ^ 31\<close> bytes:
  \<open>WriteBlock\<close> of the sequence to a new, empty file succeeds, \<open>BuildSparseIndex\<close> on
  the result succeeds, and then \<open>GetValue(k)\<close> returns the original value for every key of
  the sequence and nil for every other key.
\<close>

theorem sstable_round_trip:
  assumes "keys_ascending kvs" and "\<forall>kv \<in> set kvs. kv_fits kv"
  shows "\<exists>s1 s2. WriteBlock (NewSSTable (Some file_empty) bs) kvs = (None, s1)
           \<and> BuildSparseIndex s1 = (None, s2)
           \<and> (\<forall>k. fst (GetValue s2 k) = Inr (map_of kvs k))"
proof -
  define f where "f = \<lparr> content = block_enc kvs, pos = length (block_enc kvs), froom = None \<rparr>"
  define s1 where "s1 = \<lparr> sst_file = Some f, sparseIndexs = [], blockSize = bs \<rparr>"
  define s2 where
    "s2 = s1\<lparr>sst_file := Some (f\<lparr>pos := length (content f)\<rparr>), sparseIndexs := one_index kvs\<rparr>"
  have w: "WriteBlock (NewSSTable (Some file_empty) bs) kvs = (None, s1)"
    by (simp add: WriteBlock_fresh s1_def f_def)
  have b: "BuildSparseIndex s1 = (None, s2)"
    unfolding s2_def by (rule BuildSparseIndex_enc [OF assms(2)]) (simp_all add: s1_def f_def)
  have g: "fst (GetValue s2 k) = Inr (map_of kvs k)" for k
    by (rule GetValue_enc [OF assms, of s2 "f\<lparr>pos := length (content f)\<rparr>"])
      (simp_all add: s2_def f_def)
  from w b g show ?thesis by blast
qed

theorem sstable_round_trip_witness:
  "keys_ascending [([97], [49]), ([98], [])] \<and> kv_fits ([97], [49]) \<and> kv_fits ([98], [])
   \<and> (\<exists>s1 s2. WriteBlock (NewSSTable (Some file_empty) 0) [([97], [49]), ([98], [])] = (None, s1)
           \<and> BuildSparseIndex s1 = (None, s2)
           \<and> fst (GetValue s2 [97]) = Inr (Some [49])
           \<and> fst (GetValue s2 [98]) = Inr (Some [])
           \<and> fst (GetValue s2 [99]) = Inr None)"
proof -
  have h1: "keys_ascending [([97], [49]), ([98], [])]" by (simp add: keys_ascending_def)
  have h2: "\<forall>kv \<in> set [([97], [49]), ([98], [])]. kv_fits kv" by (simp add: kv_fits_def)
  from sstable_round_trip [OF h1 h2, of 0] obtain s1 s2 where
    "WriteBlock (NewSSTable (Some file_empty) 0) [([97], [49]), ([98], [])] = (None, s1)"
    "BuildSparseIndex s1 = (None, s2)"
    "\<forall>k. fst (GetValue s2 k) = Inr (map_of [([97], [49]), ([98], [])] k)" by blast
  then have "WriteBlock (NewSSTable (Some file_empty) 0) [([97], [49]), ([98], [])] = (None, s1)
           \<and> BuildSparseIndex s1 = (None, s2)
           \<and> fst (GetValue s2 [97]) = Inr (Some [49])
           \<and> fst (GetValue s2 [98]) = Inr (Some [])
           \<and> fst (GetValue s2 [99]) = Inr None" by simp
  then show ?thesis using h1 h2 by (auto simp: kv_fits_def)
qed

text \<open>
  The claim as it stands, for every sorted sequence with distinct keys, fails when the
  first key is empty: its length prefix is zero, which \<open>readBlockFromOffset\<close> takes for
  the end of the block, so the index stays empty and the key \<open>a\<close> written after it is
  reported absent.
\<close>

theorem sstable_round_trip_counterexample:
  "\<exists>s1 s2. WriteBlock (NewSSTable (Some file_empty) 0) [([], [120]), ([97], [49])] = (None, s1)
      \<and> BuildSparseIndex s1 = (None, s2)
      \<and> sparseIndexs s2 = []
      \<and> fst (GetValue s2 [97]) = Inr None"
proof -
  define f where "f = \<lparr> content = block_enc [([], [120]), ([97], [49])],
    pos = length (block_enc [([], [120]), ([97], [49])]), froom = None \<rparr>"
  define s1 where "s1 = \<lparr> sst_file = Some f, sparseIndexs = [], blockSize = 0 \<rparr>"
  have w: "WriteBlock (NewSSTable (Some file_empty) 0) [([], [120]), ([97], [49])] = (None, s1)"
    by (simp add: WriteBlock_fresh s1_def f_def)
  have z: "PutInt32_be 0 = [0, 0, 0, 0]" by (simp add: PutInt32_be_def)
  have i0: "Int32_be [0, 0, 0, 0] = 0" by (simp add: Int32_be_def)
  have rd: "readBlock_loop (Some (f\<lparr>pos := 0\<rparr>)) [] = (Inr [], Some (f\<lparr>pos := 4\<rparr>))"
    by (subst readBlock_loop.simps) (simp add: f_def file_ReadFull_def z i0)
  have b: "BuildSparseIndex s1 = (None, s1\<lparr>sst_file := Some (f\<lparr>pos := 4\<rparr>)\<rparr>)"
    unfolding BuildSparseIndex_def
    by (subst BuildSparseIndex_loop.simps)
      (simp add: s1_def file_Seek_def readBlockFromOffset_def rd)
  have g: "fst (GetValue (s1\<lparr>sst_file := Some (f\<lparr>pos := 4\<rparr>)\<rparr>) [97]) = Inr None"
    by (simp add: GetValue_def s1_def)
  from w b g show ?thesis by (auto simp: s1_def)
qed

section \<open>Properties of the skip list\<close>

lemma chain_valid:
  "chain h i x xs e \<Longrightarrow> a \<in> set (x # xs) \<Longrightarrow> a < length h \<and> i < length (nxt (h ! a))"
  by (induction xs arbitrary: x) auto

lemma chain_append:
  "chain h i x (as @ b # bs) e \<longleftrightarrow> chain h i x as (Some b) \<and> chain h i b bs e"
  by (induction as arbitrary: x) auto

lemma chain_last:
  "chain h i x xs e \<Longrightarrow> nxt (h ! last (x # xs)) ! i = e"
  by (induction xs arbitrary: x) auto

lemma chain_frame:
  "chain h i x xs e \<Longrightarrow> distinct (x # xs) \<Longrightarrow>
   (\<And>a. a \<in> set (x # xs) \<Longrightarrow> a < length h' \<and> i < length (nxt (h' ! a))
        \<and> (a \<noteq> last (x # xs) \<longrightarrow> nxt (h' ! a) ! i = nxt (h ! a) ! i)) \<Longrightarrow>
   chain h' i x xs (nxt (h' ! last (x # xs)) ! i)"
proof (induction xs arbitrary: x)
  case Nil
  then show ?case by simp
next
  case (Cons y ys)
  have xl: "x \<noteq> last (x # y # ys)"
  proof -
    have "last (x # y # ys) \<in> set (y # ys)" by (metis last.simps last_in_set list.distinct(1))
    then show ?thesis using Cons.prems(2) by auto
  qed
  have c: "chain h i y ys e" using Cons.prems(1) by simp
  have d: "distinct (y # ys)" using Cons.prems(2) by simp
  have ih: "chain h' i y ys (nxt (h' ! last (y # ys)) ! i)"
  proof (rule Cons.IH [OF c d])
    fix a assume "a \<in> set (y # ys)"
    then have "a \<in> set (x # y # ys)" by simp
    from Cons.prems(3) [OF this] show "a < length h' \<and> i < length (nxt (h' ! a))
        \<and> (a \<noteq> last (y # ys) \<longrightarrow> nxt (h' ! a) ! i = nxt (h ! a) ! i)" by simp
  qed
  have x: "x < length h' \<and> i < length (nxt (h' ! x)) \<and> nxt (h' ! x) ! i = nxt (h ! x) ! i"
    using Cons.prems(3) [of x] xl by simp
  show ?case using ih x Cons.prems(1) by simp
qed

lemma chain_frame_same:
  assumes "chain h i x xs e" and "distinct (x # xs)"
    and "\<And>a. a \<in> set (x # xs) \<Longrightarrow> a < length h' \<and> i < length (nxt (h' ! a))
        \<and> nxt (h' ! a) ! i = nxt (h ! a) ! i"
  shows "chain h' i x xs e"
proof -
  have "chain h' i x xs (nxt (h' ! last (x # xs)) ! i)"
    by (rule chain_frame [OF assms(1,2)]) (use assms(3) in blast)
  moreover have "nxt (h' ! last (x # xs)) ! i = e"
    using assms(3) [of "last (x # xs)"] chain_last [OF assms(1)] by simp
  ultimately show ?thesis by simp
qed

lemma walk_chain:
  "chain h i x xs None \<Longrightarrow> length xs < fuel \<Longrightarrow> walk h i k fuel x = Inr (pred_at h k x xs)"
proof (induction xs arbitrary: x fuel)
  case Nil
  then obtain f where "fuel = Suc f" by (cases fuel) auto
  with Nil show ?case by (simp add: pred_at_def)
next
  case (Cons y ys)
  then obtain f where f: "fuel = Suc f" by (cases fuel) auto
  have y: "y < length h" using chain_valid [of h i y ys None y] Cons.prems(1) by simp
  show ?case
  proof (cases "klt h k y")
    case True
    have "walk h i k f y = Inr (pred_at h k y ys)"
      using Cons.prems f by (intro Cons.IH) simp_all
    then show ?thesis using Cons.prems(1) f y True by (simp add: pred_at_def klt_def)
  next
    case False
    then show ?thesis using Cons.prems(1) f y by (simp add: pred_at_def klt_def)
  qed
qed

lemma ascending_distinct: "ascending h xs \<Longrightarrow> distinct xs"
  unfolding ascending_def
  by (induction xs) auto

lemma ascending_append:
  "ascending h (xs @ ys) \<longleftrightarrow>
     ascending h xs \<and> ascending h ys
     \<and> (\<forall>a \<in> set xs. \<forall>b \<in> set ys. bytes_Compare (key (h ! a)) (key (h ! b)) < 0)"
  by (simp add: ascending_def sorted_wrt_append)

lemma ascending_Cons:
  "ascending h (x # ys) \<longleftrightarrow>
     ascending h ys \<and> (\<forall>b \<in> set ys. bytes_Compare (key (h ! x)) (key (h ! b)) < 0)"
  by (auto simp: ascending_def)

lemma length_le_store:
  assumes "distinct xs" and "\<And>a. a \<in> set xs \<Longrightarrow> a < n"
  shows "length xs \<le> n"
proof -
  have "set xs \<subseteq> {..<n}" using assms(2) by auto
  then have "card (set xs) \<le> card {..<n}" by (intro card_mono) auto
  then show ?thesis using assms(1) by (simp add: distinct_card)
qed

text \<open>Where a level takes the search: a suffix of the lane from a node before the key.\<close>

lemma pred_at_suffix:
  assumes asc: "ascending h (pre @ x # suf)" and x: "klt h k x"
  shows "pred_at h k H (pre @ x # suf) = pred_at h k x suf"
proof -
  have "klt h k a" if "a \<in> set pre" for a
  proof -
    have "bytes_Compare (key (h ! a)) (key (h ! x)) < 0"
      using asc that by (simp add: ascending_append)
    then show ?thesis using x unfolding klt_def by (rule bytes_Compare_trans)
  qed
  then have "takeWhile (klt h k) (pre @ x # suf) = pre @ x # takeWhile (klt h k) suf"
    using x by (simp add: takeWhile_append2)
  then show ?thesis by (simp add: pred_at_def)
qed

lemma pred_at_cases:
  "pred_at h k H xs = H \<or> (pred_at h k H xs \<in> set xs \<and> klt h k (pred_at h k H xs))"
proof (cases "takeWhile (klt h k) xs = []")
  case True
  then show ?thesis by (simp add: pred_at_def)
next
  case False
  then have "last (takeWhile (klt h k) xs) \<in> set (takeWhile (klt h k) xs)" by simp
  then have "last (takeWhile (klt h k) xs) \<in> set xs \<and> klt h k (last (takeWhile (klt h k) xs))"
    by (metis set_takeWhileD)
  then show ?thesis using False by (simp add: pred_at_def)
qed

lemma inv_sub:
  assumes "sl_inv s L" and "j \<le> i" and "i < MaxLevel s"
  shows "set (L i) \<subseteq> set (L j)"
  using assms(2,3)
proof (induction i)
  case 0
  then show ?case by simp
next
  case (Suc i)
  show ?case
  proof (cases "j = Suc i")
    case True
    then show ?thesis by simp
  next
    case False
    then have "j \<le> i" using Suc.prems by simp
    moreover have "i < MaxLevel s" using Suc.prems by simp
    ultimately have "set (L i) \<subseteq> set (L j)" by (rule Suc.IH)
    moreover have "set (L (Suc i)) \<subseteq> set (L i)"
      using assms(1) Suc.prems(2) by (simp add: sl_inv_def)
    ultimately show ?thesis by blast
  qed
qed

lemma inv_lane:
  assumes "sl_inv s L" and "i < MaxLevel s"
  shows "chain (nodes s) i (Head s) (L i) None" and "ascending (nodes s) (L i)"
    and "Head s \<notin> set (L i)" and "distinct (Head s # L i)"
    and "length (L i) < length (nodes s)"
proof -
  show c: "chain (nodes s) i (Head s) (L i) None" and a: "ascending (nodes s) (L i)"
    and n: "Head s \<notin> set (L i)"
    using assms by (simp_all add: sl_inv_def)
  show d: "distinct (Head s # L i)" using n ascending_distinct [OF a] by simp
  have "length (Head s # L i) \<le> length (nodes s)"
    by (rule length_le_store [OF d]) (use chain_valid [OF c] in blast)
  then show "length (L i) < length (nodes s)" by simp
qed

lemma walk_level:
  assumes inv: "sl_inv s L" and i: "i < MaxLevel s"
    and x: "x = Head s \<or> (x \<in> set (L i) \<and> klt (nodes s) k x)"
  shows "walk (nodes s) i k (length (nodes s)) x = Inr (pred_at (nodes s) k (Head s) (L i))"
proof (cases "x = Head s")
  case True
  show ?thesis unfolding True
    by (rule walk_chain [OF inv_lane(1) [OF inv i] inv_lane(5) [OF inv i]])
next
  case False
  with x have xin: "x \<in> set (L i)" and xk: "klt (nodes s) k x" by auto
  from split_list [OF xin] obtain pre suf where L: "L i = pre @ x # suf" by blast
  have c: "chain (nodes s) i x suf None"
    using inv_lane(1) [OF inv i] by (simp add: L chain_append)
  have len: "length suf < length (nodes s)" using inv_lane(5) [OF inv i] by (simp add: L)
  have "pred_at (nodes s) k (Head s) (L i) = pred_at (nodes s) k x suf"
    unfolding L by (rule pred_at_suffix [OF _ xk]) (use inv_lane(2) [OF inv i] L in simp)
  then show ?thesis using walk_chain [OF c len, of k] by simp
qed

lemma pred_start:
  assumes inv: "sl_inv s L" and i: "i < MaxLevel s" and j: "j \<le> i"
  shows "pred_at (nodes s) k (Head s) (L i) = Head s
     \<or> (pred_at (nodes s) k (Head s) (L i) \<in> set (L j)
        \<and> klt (nodes s) k (pred_at (nodes s) k (Head s) (L i)))"
  using pred_at_cases [of "nodes s" k "Head s" "L i"] inv_sub [OF inv j i] by blast

lemma descend_update_inv:
  assumes inv: "sl_inv s L"
  shows "n \<le> MaxLevel s \<Longrightarrow> length upd = MaxLevel s \<Longrightarrow>
     x = Head s \<or> (klt (nodes s) k x \<and> (\<forall>i < n. x \<in> set (L i))) \<Longrightarrow>
     descend_update (nodes s) k n x upd =
       Inr (if n = 0 then x else pred_at (nodes s) k (Head s) (L 0),
            map (\<lambda>i. Some (pred_at (nodes s) k (Head s) (L i))) [0 ..< n] @ drop n upd)"
proof (induction n arbitrary: x upd)
  case 0
  then show ?case by simp
next
  case (Suc n)
  let ?p = "pred_at (nodes s) k (Head s) (L n)"
  have n: "n < MaxLevel s" using Suc.prems(1) by simp
  have w: "walk (nodes s) n k (length (nodes s)) x = Inr ?p"
    by (rule walk_level [OF inv n]) (use Suc.prems(3) in auto)
  have start: "?p = Head s \<or> (klt (nodes s) k ?p \<and> (\<forall>i < n. ?p \<in> set (L i)))"
  proof (cases "?p = Head s")
    case True
    then show ?thesis by simp
  next
    case False
    have "?p \<in> set (L i) \<and> klt (nodes s) k ?p" if "i < n" for i
      using pred_start [OF inv n, of i k] that False by simp
    moreover have "klt (nodes s) k ?p" using pred_start [OF inv n, of n k] False by simp
    ultimately show ?thesis by simp
  qed
  have ih: "descend_update (nodes s) k n ?p (upd[n := Some ?p]) =
       Inr (if n = 0 then ?p else pred_at (nodes s) k (Head s) (L 0),
            map (\<lambda>i. Some (pred_at (nodes s) k (Head s) (L i))) [0 ..< n] @ drop n (upd[n := Some ?p]))"
    by (rule Suc.IH) (use n Suc.prems(2) start in simp_all)
  have dr: "drop n (upd[n := Some ?p]) = Some ?p # drop (Suc n) upd"
    using n Suc.prems(2) by (simp add: drop_update_swap [symmetric] Cons_nth_drop_Suc [symmetric] upd_conv_take_nth_drop)
  have fst: "(if n = 0 then ?p else pred_at (nodes s) k (Head s) (L 0)) = pred_at (nodes s) k (Head s) (L 0)"
    by simp
  show ?case using w ih n Suc.prems(2) by (simp add: dr fst)
qed

lemma descend_eq:
  "n \<le> length upd \<Longrightarrow>
   descend h k n x = (case descend_update h k n x upd of Inl e \<Rightarrow> Inl e | Inr p \<Rightarrow> Inr (fst p))"
proof (induction n arbitrary: x upd)
  case 0
  then show ?case by simp
next
  case (Suc n)
  show ?case
  proof (cases "walk h n k (length h) x")
    case (Inl e)
    then show ?thesis by simp
  next
    case (Inr x')
    have "n \<le> length (upd[n := Some x'])" using Suc.prems by simp
    from Suc.IH [OF this, of x'] show ?thesis using Inr Suc.prems by simp
  qed
qed

lemma descend_inv:
  assumes inv: "sl_inv s L"
  shows "descend (nodes s) k (MaxLevel s) (Head s) = Inr (pred_at (nodes s) k (Head s) (L 0))"
proof -
  have pos: "0 < MaxLevel s" using inv by (simp add: sl_inv_def)
  have "descend_update (nodes s) k (MaxLevel s) (Head s) (replicate (MaxLevel s) None) =
       Inr (if MaxLevel s = 0 then Head s else pred_at (nodes s) k (Head s) (L 0),
            map (\<lambda>i. Some (pred_at (nodes s) k (Head s) (L i))) [0 ..< MaxLevel s]
              @ drop (MaxLevel s) (replicate (MaxLevel s) None))"
    by (rule descend_update_inv [OF inv]) simp_all
  then show ?thesis
    using pos descend_eq [of "MaxLevel s" "replicate (MaxLevel s) None" "nodes s" k "Head s"]
    by simp
qed

lemma descend_update_top:
  assumes inv: "sl_inv s L"
  shows "descend_update (nodes s) k (MaxLevel s) (Head s) (replicate (MaxLevel s) None) =
       Inr (pred_at (nodes s) k (Head s) (L 0),
            map (\<lambda>i. Some (pred_at (nodes s) k (Head s) (L i))) [0 ..< MaxLevel s])"
proof -
  have pos: "0 < MaxLevel s" using inv by (simp add: sl_inv_def)
  have "descend_update (nodes s) k (MaxLevel s) (Head s) (replicate (MaxLevel s) None) =
       Inr (if MaxLevel s = 0 then Head s else pred_at (nodes s) k (Head s) (L 0),
            map (\<lambda>i. Some (pred_at (nodes s) k (Head s) (L i))) [0 ..< MaxLevel s]
              @ drop (MaxLevel s) (replicate (MaxLevel s) None))"
    by (rule descend_update_inv [OF inv]) simp_all
  then show ?thesis using pos by simp
qed

lemma chain_prefix:
  "chain h i x (as @ bs) None \<Longrightarrow> chain h i x as (head_opt bs)"
  by (cases bs) (simp_all add: head_opt_def chain_append)

lemma chain_suffix:
  "chain h i x (as @ b # bs) None \<Longrightarrow> chain h i b bs None"
  by (simp add: chain_append)

lemma next_at_chain:
  "chain h i x as e \<Longrightarrow> next_at h (last (x # as)) i = Inr e"
  by (induction as arbitrary: x) (auto simp: next_at_def)

lemma next_at_pred:
  assumes "chain h i x xs None"
  shows "next_at h (pred_at h k x xs) i = Inr (head_opt (dropWhile (klt h k) xs))"
proof -
  have "chain h i x (takeWhile (klt h k) xs @ dropWhile (klt h k) xs) None" using assms by simp
  from next_at_chain [OF chain_prefix [OF this]] show ?thesis by (simp add: pred_at_def)
qed

text \<open>The part of an ascending lane at or after a key.\<close>

lemma takeWhile_klt: "a \<in> set (takeWhile (klt h k) xs) \<Longrightarrow> klt h k a"
  by (metis set_takeWhileD)

lemma dropWhile_ge:
  assumes asc: "ascending h xs" and b: "b \<in> set (dropWhile (klt h k) xs)"
  shows "\<not> klt h k b"
proof (cases "dropWhile (klt h k) xs")
  case Nil
  with b show ?thesis by simp
next
  case (Cons c cs)
  have c: "\<not> klt h k c" using Cons by (metis hd_dropWhile list.distinct(1) list.sel(1))
  have "ascending h (takeWhile (klt h k) xs @ c # cs)" using asc Cons by (metis takeWhile_dropWhile_id)
  then have cs: "\<forall>d \<in> set cs. bytes_Compare (key (h ! c)) (key (h ! d)) < 0"
    by (simp add: ascending_append ascending_Cons)
  show ?thesis
  proof (cases "b = c")
    case True
    then show ?thesis using c by simp
  next
    case False
    then have "b \<in> set cs" using b Cons by simp
    then have "bytes_Compare (key (h ! c)) (key (h ! b)) < 0" using cs by simp
    then show ?thesis using c bytes_Compare_trans unfolding klt_def by blast
  qed
qed

lemma dropWhile_tail_gt:
  assumes asc: "ascending h xs" and d: "dropWhile (klt h k) xs = c # cs" and b: "b \<in> set cs"
  shows "bytes_Compare (key (h ! c)) (key (h ! b)) < 0"
proof -
  have "ascending h (takeWhile (klt h k) xs @ c # cs)" using asc d by (metis takeWhile_dropWhile_id)
  then show ?thesis using b by (simp add: ascending_append ascending_Cons)
qed

lemma not_klt_gt: "\<not> klt h k a \<Longrightarrow> key (h ! a) \<noteq> k \<Longrightarrow> bytes_Compare k (key (h ! a)) < 0"
  using bytes_Compare_eq_0 [of "key (h ! a)" k] bytes_Compare_gt [of "key (h ! a)" k]
  by (auto simp: klt_def)

lemma key_only_head:
  assumes asc: "ascending h xs" and a: "a \<in> set xs" and k: "key (h ! a) = k"
  shows "\<exists>bs. dropWhile (klt h k) xs = a # bs"
proof -
  have nk: "\<not> klt h k a" using k by (simp add: klt_def)
  have "a \<notin> set (takeWhile (klt h k) xs)" using nk takeWhile_klt by blast
  then have ain: "a \<in> set (dropWhile (klt h k) xs)"
    using a by (metis Un_iff set_append takeWhile_dropWhile_id)
  then obtain c cs where d: "dropWhile (klt h k) xs = c # cs"
    by (cases "dropWhile (klt h k) xs") auto
  have "a = c"
  proof (rule ccontr)
    assume "a \<noteq> c"
    then have "a \<in> set cs" using ain d by simp
    from dropWhile_tail_gt [OF asc d this] have "klt h k c" by (simp add: klt_def k)
    moreover have "\<not> klt h k c" using dropWhile_ge [OF asc, of c k] d by simp
    ultimately show False by simp
  qed
  then show ?thesis using d by simp
qed

lemma key_absent:
  assumes asc: "ascending h xs"
    and hd: "\<And>b bs. dropWhile (klt h k) xs = b # bs \<Longrightarrow> key (h ! b) \<noteq> k"
  shows "\<forall>a \<in> set xs. key (h ! a) \<noteq> k"
  using key_only_head [OF asc] hd by blast

lemma map_of_insert:
  "k \<notin> fst ` set xs \<Longrightarrow> map_of (xs @ (k, v) # ys) = (map_of (xs @ ys))(k \<mapsto> v)"
proof
  fix k'
  assume a: "k \<notin> fst ` set xs"
  then have n: "map_of xs k = None" by (simp add: map_of_eq_None_iff)
  show "map_of (xs @ (k, v) # ys) k' = ((map_of (xs @ ys))(k \<mapsto> v)) k'"
    using n by (cases "map_of xs k'") (auto simp: map_add_def split: option.splits)
qed

lemma map_of_absent:
  "k \<notin> fst ` set xs \<Longrightarrow> map_of xs k = None"
  by (simp add: map_of_eq_None_iff)

lemma sl_entries_keys: "fst ` set (sl_entries h xs) = (\<lambda>a. key (h ! a)) ` set xs"
  by (auto simp: sl_entries_def image_iff)

lemma sl_entries_append [simp]: "sl_entries h (xs @ ys) = sl_entries h xs @ sl_entries h ys"
  by (simp add: sl_entries_def)

lemma sl_entries_Cons [simp]: "sl_entries h (x # xs) = (key (h ! x), val (h ! x)) # sl_entries h xs"
  by (simp add: sl_entries_def)

lemma sl_entries_Nil [simp]: "sl_entries h [] = []"
  by (simp add: sl_entries_def)

lemma klt_keys_ne: "\<forall>a \<in> set xs. klt h k a \<Longrightarrow> k \<notin> fst ` set (sl_entries h xs)"
  by (auto simp: sl_entries_keys klt_def)

lemma gt_keys_ne:
  "\<forall>a \<in> set xs. bytes_Compare k (key (h ! a)) < 0 \<Longrightarrow> k \<notin> fst ` set (sl_entries h xs)"
  by (auto simp: sl_entries_keys)

text \<open>The entries of an ascending lane, split at a key.\<close>

lemma entries_lookup:
  assumes asc: "ascending h xs"
  shows "map_of (sl_entries h xs) k =
     (case dropWhile (klt h k) xs of
        [] \<Rightarrow> None
      | b # bs \<Rightarrow> if key (h ! b) = k then Some (val (h ! b)) else None)"
proof -
  let ?A = "takeWhile (klt h k) xs" and ?B = "dropWhile (klt h k) xs"
  have xs: "xs = ?A @ ?B" by simp
  have A: "k \<notin> fst ` set (sl_entries h ?A)"
    by (rule klt_keys_ne) (use takeWhile_klt in blast)
  show ?thesis
  proof (cases ?B)
    case Nil
    then have "\<forall>a \<in> set xs. klt h k a" by simp
    from map_of_absent [OF klt_keys_ne [OF this]] show ?thesis by (simp add: Nil)
  next
    case (Cons b bs)
    have e: "sl_entries h xs = sl_entries h ?A @ (key (h ! b), val (h ! b)) # sl_entries h bs"
      using xs Cons by (metis sl_entries_Cons sl_entries_append)
    show ?thesis
    proof (cases "key (h ! b) = k")
      case True
      have "map_of (sl_entries h xs) = (map_of (sl_entries h ?A @ sl_entries h bs))(k \<mapsto> val (h ! b))"
        unfolding e True by (rule map_of_insert [OF A])
      then show ?thesis using Cons True by simp
    next
      case False
      have "key (h ! a) \<noteq> k" if "a \<in> set xs" for a
        using key_only_head [OF asc that, of k] Cons False by auto
      then have "k \<notin> fst ` set (sl_entries h xs)" by (auto simp: sl_entries_keys)
      from map_of_absent [OF this] show ?thesis using Cons False by simp
    qed
  qed
qed

lemma SkipList_Get_inv:
  assumes inv: "sl_inv s L"
  shows "SkipList_Get s k =
     (case map_of (sl_entries (nodes s) (L 0)) k of None \<Rightarrow> Inl ErrNotFound | Some v \<Rightarrow> Inr v)"
proof -
  have pos: "0 < MaxLevel s" using inv by (simp add: sl_inv_def)
  note lane = inv_lane [OF inv pos]
  have nx: "next_at (nodes s) (pred_at (nodes s) k (Head s) (L 0)) 0
      = Inr (head_opt (dropWhile (klt (nodes s) k) (L 0)))"
    by (rule next_at_pred [OF lane(1)])
  show ?thesis
  proof (cases "dropWhile (klt (nodes s) k) (L 0)")
    case Nil
    show ?thesis
      by (simp add: SkipList_Get_def descend_inv [OF inv] entries_lookup [OF lane(2)] head_opt_def nx Nil)
  next
    case (Cons b bs)
    have "b \<in> set (L 0)" using Cons by (metis list.set_intros(1) set_dropWhileD)
    then have "b < length (nodes s)" using chain_valid [OF lane(1), of b] by simp
    then show ?thesis
      by (simp add: SkipList_Get_def descend_inv [OF inv] entries_lookup [OF lane(2)] head_opt_def
          nx Cons bytes_Compare_eq_0)
  qed
qed

lemma same_shape_refl: "same_shape h h"
  by (simp add: same_shape_def)

lemma same_shape_trans: "same_shape h h1 \<Longrightarrow> same_shape h1 h2 \<Longrightarrow> same_shape h h2"
  by (simp add: same_shape_def)

lemma set_next_shape: "same_shape h (set_next h a i e)"
proof (cases "a < length h")
  case True
  then show ?thesis by (auto simp: same_shape_def set_next_def nth_list_update)
next
  case False
  then show ?thesis by (simp add: same_shape_def set_next_def)
qed

lemma set_next_nth:
  "a < length h \<Longrightarrow> i < length (nxt (h ! a)) \<Longrightarrow> b < length h \<Longrightarrow> l < length (nxt (h ! b)) \<Longrightarrow>
   nxt (set_next h a i e ! b) ! l = (if b = a \<and> l = i then e else nxt (h ! b) ! l)"
  by (auto simp: set_next_def nth_list_update)

lemma link_loop_spec:
  assumes "distinct ls" and "n < length h"
    and "\<And>i. i \<in> set ls \<Longrightarrow> i < length upd \<and> upd ! i = Some (u i) \<and> u i < length h \<and> u i \<noteq> n
            \<and> i < length (nxt (h ! u i)) \<and> i < length (nxt (h ! n))"
  shows "\<exists>h'. link_loop h upd n ls = Inr h' \<and> same_shape h h'
     \<and> (\<forall>a < length h. \<forall>l < length (nxt (h ! a)).
           nxt (h' ! a) ! l =
             (if l \<in> set ls \<and> a = u l then Some n
              else if l \<in> set ls \<and> a = n then nxt (h ! u l) ! l
              else nxt (h ! a) ! l))"
  using assms
proof (induction ls arbitrary: h)
  case Nil
  then show ?case by (simp add: same_shape_refl)
next
  case (Cons i ls)
  have i: "i < length upd" "upd ! i = Some (u i)" "u i < length h" "u i \<noteq> n"
    "i < length (nxt (h ! u i))" "i < length (nxt (h ! n))"
    using Cons.prems(3) [of i] by simp_all
  define h1 where "h1 = set_next h n i (nxt (h ! u i) ! i)"
  define h2 where "h2 = set_next h1 (u i) i (Some n)"
  have s1: "same_shape h h1" unfolding h1_def by (rule set_next_shape)
  have s2: "same_shape h1 h2" unfolding h2_def by (rule set_next_shape)
  have s: "same_shape h h2" by (rule same_shape_trans [OF s1 s2])
  have len: "length h1 = length h" "length h2 = length h"
    using s1 s by (simp_all add: same_shape_def)
  have nl: "length (nxt (h1 ! a)) = length (nxt (h ! a))"
    "length (nxt (h2 ! a)) = length (nxt (h ! a))" if "a < length h" for a
    using s1 s that by (simp_all add: same_shape_def)
  have e1: "nxt (h1 ! a) ! l = (if a = n \<and> l = i then nxt (h ! u i) ! i else nxt (h ! a) ! l)"
    if "a < length h" "l < length (nxt (h ! a))" for a l
    unfolding h1_def by (rule set_next_nth [OF Cons.prems(2) i(6) that])
  have e2: "nxt (h2 ! a) ! l =
      (if a = u i \<and> l = i then Some n
       else if a = n \<and> l = i then nxt (h ! u i) ! i else nxt (h ! a) ! l)"
    if "a < length h" "l < length (nxt (h ! a))" for a l
  proof -
    have A: "nxt (h2 ! a) ! l = (if a = u i \<and> l = i then Some n else nxt (h1 ! a) ! l)"
      unfolding h2_def
      by (rule set_next_nth) (use i that len nl in simp_all)
    show ?thesis unfolding A e1 [OF that] by simp
  qed
  have step: "link_loop h upd n (i # ls) = link_loop h2 upd n ls"
    using i Cons.prems(2)
    by (simp add: next_at_def h2_def h1_def set_next_def Let_def)
  have "\<exists>h'. link_loop h2 upd n ls = Inr h' \<and> same_shape h2 h'
     \<and> (\<forall>a < length h2. \<forall>l < length (nxt (h2 ! a)).
           nxt (h' ! a) ! l =
             (if l \<in> set ls \<and> a = u l then Some n
              else if l \<in> set ls \<and> a = n then nxt (h2 ! u l) ! l
              else nxt (h2 ! a) ! l))"
  proof (rule Cons.IH)
    show "distinct ls" using Cons.prems(1) by simp
    show "n < length h2" using Cons.prems(2) len by simp
    fix j assume j: "j \<in> set ls"
    from Cons.prems(3) [of j] j
    show "j < length upd \<and> upd ! j = Some (u j) \<and> u j < length h2 \<and> u j \<noteq> n
            \<and> j < length (nxt (h2 ! u j)) \<and> j < length (nxt (h2 ! n))"
      using len nl Cons.prems(2) by simp
  qed
  then obtain h' where h': "link_loop h2 upd n ls = Inr h'" "same_shape h2 h'"
    and e': "\<And>a l. a < length h \<Longrightarrow> l < length (nxt (h ! a)) \<Longrightarrow>
           nxt (h' ! a) ! l =
             (if l \<in> set ls \<and> a = u l then Some n
              else if l \<in> set ls \<and> a = n then nxt (h2 ! u l) ! l
              else nxt (h2 ! a) ! l)"
    using len nl by auto
  have inot: "i \<notin> set ls" using Cons.prems(1) by simp
  have "nxt (h' ! a) ! l =
             (if l \<in> set (i # ls) \<and> a = u l then Some n
              else if l \<in> set (i # ls) \<and> a = n then nxt (h ! u l) ! l
              else nxt (h ! a) ! l)"
    if a: "a < length h" and l: "l < length (nxt (h ! a))" for a l
  proof (cases "l \<in> set ls")
    case True
    then have li: "l \<noteq> i" using inot by auto
    have ul: "u l < length h" "l < length (nxt (h ! u l))" using Cons.prems(3) [of l] True by simp_all
    have "nxt (h2 ! u l) ! l = nxt (h ! u l) ! l" using e2 [OF ul] li by simp
    then show ?thesis using e' [OF a l] True e2 [OF a l] li by simp
  next
    case False
    then show ?thesis using e' [OF a l] e2 [OF a l] by auto
  qed
  then show ?case using step h' s same_shape_trans by auto
qed

lemma unlink_loop_spec:
  assumes "distinct ls" and "x < length h"
    and "\<And>i. i \<in> set ls \<Longrightarrow> i < length upd \<and> upd ! i = Some (u i) \<and> u i < length h \<and> u i \<noteq> x
            \<and> i < length (nxt (h ! u i))
            \<and> (nxt (h ! u i) ! i = Some x \<longrightarrow> i < length (nxt (h ! x)))"
  shows "\<exists>h'. unlink_loop h upd x ls = Inr h' \<and> same_shape h h'
     \<and> (\<forall>a < length h. \<forall>l < length (nxt (h ! a)).
           nxt (h' ! a) ! l =
             (if l \<in> set ls \<and> a = u l \<and> nxt (h ! a) ! l = Some x then nxt (h ! x) ! l
              else nxt (h ! a) ! l))"
  using assms
proof (induction ls arbitrary: h)
  case Nil
  then show ?case by (simp add: same_shape_refl)
next
  case (Cons i ls)
  have i: "i < length upd" "upd ! i = Some (u i)" "u i < length h" "u i \<noteq> x"
    "i < length (nxt (h ! u i))" "nxt (h ! u i) ! i = Some x \<longrightarrow> i < length (nxt (h ! x))"
    using Cons.prems(3) [of i] by simp_all
  define h2 where
    "h2 = (if nxt (h ! u i) ! i = Some x then set_next h (u i) i (nxt (h ! x) ! i) else h)"
  have s: "same_shape h h2" unfolding h2_def by (simp add: set_next_shape same_shape_refl)
  have len: "length h2 = length h" using s by (simp add: same_shape_def)
  have nl: "length (nxt (h2 ! a)) = length (nxt (h ! a))" if "a < length h" for a
    using s that by (simp add: same_shape_def)
  have e2: "nxt (h2 ! a) ! l =
      (if a = u i \<and> l = i \<and> nxt (h ! a) ! l = Some x then nxt (h ! x) ! l else nxt (h ! a) ! l)"
    if "a < length h" "l < length (nxt (h ! a))" for a l
    unfolding h2_def using set_next_nth [OF i(3) i(5) that] by auto
  have step: "unlink_loop h upd x (i # ls) = unlink_loop h2 upd x ls"
  proof (cases "nxt (h ! u i) ! i = Some x")
    case True
    then show ?thesis using i Cons.prems(2) by (simp add: next_at_def h2_def set_next_def)
  next
    case False
    then show ?thesis using i Cons.prems(2) by (simp add: next_at_def h2_def)
  qed
  have "\<exists>h'. unlink_loop h2 upd x ls = Inr h' \<and> same_shape h2 h'
     \<and> (\<forall>a < length h2. \<forall>l < length (nxt (h2 ! a)).
           nxt (h' ! a) ! l =
             (if l \<in> set ls \<and> a = u l \<and> nxt (h2 ! a) ! l = Some x then nxt (h2 ! x) ! l
              else nxt (h2 ! a) ! l))"
  proof (rule Cons.IH)
    show "distinct ls" using Cons.prems(1) by simp
    show "x < length h2" using Cons.prems(2) len by simp
    fix j assume j: "j \<in> set ls"
    then have ji: "j \<noteq> i" using Cons.prems(1) by auto
    have uj: "j < length upd" "upd ! j = Some (u j)" "u j < length h" "u j \<noteq> x"
      "j < length (nxt (h ! u j))" "nxt (h ! u j) ! j = Some x \<longrightarrow> j < length (nxt (h ! x))"
      using Cons.prems(3) [of j] j by simp_all
    have "nxt (h2 ! u j) ! j = nxt (h ! u j) ! j" using e2 [OF uj(3,5)] ji by simp
    then show "j < length upd \<and> upd ! j = Some (u j) \<and> u j < length h2 \<and> u j \<noteq> x
            \<and> j < length (nxt (h2 ! u j))
            \<and> (nxt (h2 ! u j) ! j = Some x \<longrightarrow> j < length (nxt (h2 ! x)))"
      using uj len nl Cons.prems(2) by simp
  qed
  then obtain h' where h': "unlink_loop h2 upd x ls = Inr h'" "same_shape h2 h'"
    and e': "\<And>a l. a < length h \<Longrightarrow> l < length (nxt (h ! a)) \<Longrightarrow>
           nxt (h' ! a) ! l =
             (if l \<in> set ls \<and> a = u l \<and> nxt (h2 ! a) ! l = Some x then nxt (h2 ! x) ! l
              else nxt (h2 ! a) ! l)"
    using len nl by auto
  have inot: "i \<notin> set ls" using Cons.prems(1) by simp
  have "nxt (h' ! a) ! l =
             (if l \<in> set (i # ls) \<and> a = u l \<and> nxt (h ! a) ! l = Some x then nxt (h ! x) ! l
              else nxt (h ! a) ! l)"
    if a: "a < length h" and l: "l < length (nxt (h ! a))" for a l
  proof (cases "l \<in> set ls \<and> a = u l \<and> nxt (h2 ! a) ! l = Some x")
    case True
    then have li: "l \<noteq> i" using inot by auto
    have same: "nxt (h2 ! a) ! l = nxt (h ! a) ! l" using e2 [OF a l] li by simp
    have xl: "l < length (nxt (h ! x))" using Cons.prems(3) [of l] True same by auto
    have "nxt (h2 ! x) ! l = nxt (h ! x) ! l" using e2 [OF Cons.prems(2) xl] i(4) li by auto
    then show ?thesis using e' [OF a l] True same by simp
  next
    case False
    then have r: "nxt (h' ! a) ! l = nxt (h2 ! a) ! l" using e' [OF a l] by auto
    show ?thesis
    proof (cases "l = i")
      case True
      then show ?thesis using r e2 [OF a l] inot by auto
    next
      case F: False
      then have "nxt (h2 ! a) ! l = nxt (h ! a) ! l" using e2 [OF a l] by simp
      then show ?thesis using r False F by auto
    qed
  qed
  then show ?case using step h' s same_shape_trans by auto
qed

lemma ascending_cong:
  "(\<And>a. a \<in> set xs \<Longrightarrow> key (h' ! a) = key (h ! a)) \<Longrightarrow> ascending h' xs = ascending h xs"
  unfolding ascending_def by (induction xs) auto

lemma sl_entries_cong:
  "(\<And>a. a \<in> set xs \<Longrightarrow> key (h' ! a) = key (h ! a) \<and> val (h' ! a) = val (h ! a)) \<Longrightarrow>
   sl_entries h' xs = sl_entries h xs"
  by (simp add: sl_entries_def)

lemma link_inserted:
  assumes lvl: "lvl \<le> m"
    and P: "\<And>i. i < lvl \<Longrightarrow> P i < length h \<and> i < length (nxt (h ! P i))"
  shows "\<exists>h'. link_loop (h @ [\<lparr> key = k, val = v, nxt = replicate lvl None \<rparr>])
                (map (\<lambda>i. Some (P i)) [0 ..< m]) (length h) [0 ..< lvl] = Inr h'
           \<and> inserted h h' k v lvl P"
proof -
  define h0 where "h0 = h @ [\<lparr> key = k, val = v, nxt = replicate lvl None \<rparr>]"
  have old: "h0 ! a = h ! a" if "a < length h" for a using that by (simp add: h0_def nth_append)
  have new: "h0 ! length h = \<lparr> key = k, val = v, nxt = replicate lvl None \<rparr>" by (simp add: h0_def)
  have len0: "length h0 = Suc (length h)" by (simp add: h0_def)
  have "\<exists>h'. link_loop h0 (map (\<lambda>i. Some (P i)) [0 ..< m]) (length h) [0 ..< lvl] = Inr h'
     \<and> same_shape h0 h'
     \<and> (\<forall>a < length h0. \<forall>l < length (nxt (h0 ! a)).
           nxt (h' ! a) ! l =
             (if l \<in> set [0 ..< lvl] \<and> a = P l then Some (length h)
              else if l \<in> set [0 ..< lvl] \<and> a = length h then nxt (h0 ! P l) ! l
              else nxt (h0 ! a) ! l))"
  proof (rule link_loop_spec)
    show "distinct [0 ..< lvl]" by simp
    show "length h < length h0" by (simp add: len0)
    fix i assume "i \<in> set [0 ..< lvl]"
    then have i: "i < lvl" by simp
    then have im: "i < m" using lvl by simp
    show "i < length (map (\<lambda>i. Some (P i)) [0 ..< m])
        \<and> map (\<lambda>i. Some (P i)) [0 ..< m] ! i = Some (P i) \<and> P i < length h0 \<and> P i \<noteq> length h
        \<and> i < length (nxt (h0 ! P i)) \<and> i < length (nxt (h0 ! length h))"
      using P [OF i] im i by (simp add: old new len0)
  qed
  then obtain h' where run: "link_loop h0 (map (\<lambda>i. Some (P i)) [0 ..< m]) (length h) [0 ..< lvl] = Inr h'"
    and shape: "same_shape h0 h'"
    and ent: "\<And>a l. a < length h0 \<Longrightarrow> l < length (nxt (h0 ! a)) \<Longrightarrow>
           nxt (h' ! a) ! l =
             (if l < lvl \<and> a = P l then Some (length h)
              else if l < lvl \<and> a = length h then nxt (h0 ! P l) ! l
              else nxt (h0 ! a) ! l)"
    by auto
  have "inserted h h' k v lvl P"
    unfolding inserted_def
  proof (intro conjI allI impI)
    show "length h' = Suc (length h)" using shape len0 by (simp add: same_shape_def)
    show "key (h' ! length h) = k" "val (h' ! length h) = v" "length (nxt (h' ! length h)) = lvl"
      using shape len0 new by (simp_all add: same_shape_def)
  next
    fix a assume a: "a < length h"
    then have a0: "a < length h0" by (simp add: len0)
    show "key (h' ! a) = key (h ! a)" "val (h' ! a) = val (h ! a)"
      "length (nxt (h' ! a)) = length (nxt (h ! a))"
      using shape a0 old [OF a] by (simp_all add: same_shape_def)
    fix l assume l: "l < length (nxt (h ! a))"
    then have "l < length (nxt (h0 ! a))" by (simp add: old [OF a])
    from ent [OF a0 this] a
    show "nxt (h' ! a) ! l = (if l < lvl \<and> a = P l then Some (length h) else nxt (h ! a) ! l)"
      by (simp add: old)
  next
    fix l assume l: "l < lvl"
    have "l < length (nxt (h0 ! length h))" using l by (simp add: new)
    from ent [OF _ this] P [OF l] l
    show "nxt (h' ! length h) ! l = nxt (h ! P l) ! l" by (simp add: len0 old)
  qed
  with run show ?thesis unfolding h0_def by blast
qed

lemma inserted_old:
  assumes "inserted h h' k v lvl P" and "a < length h"
  shows "a < length h'" "key (h' ! a) = key (h ! a)" "val (h' ! a) = val (h ! a)"
    "length (nxt (h' ! a)) = length (nxt (h ! a))"
    "l < length (nxt (h ! a)) \<Longrightarrow>
       nxt (h' ! a) ! l = (if l < lvl \<and> a = P l then Some (length h) else nxt (h ! a) ! l)"
  using assms by (simp_all add: inserted_def)

lemma inserted_new:
  assumes "inserted h h' k v lvl P"
  shows "length h < length h'" "key (h' ! length h) = k" "val (h' ! length h) = v"
    "length (nxt (h' ! length h)) = lvl"
    "l < lvl \<Longrightarrow> nxt (h' ! length h) ! l = nxt (h ! P l) ! l"
  using assms by (simp_all add: inserted_def)

lemma inserted_level_out:
  assumes ins: "inserted h h' k v lvl P"
    and c: "chain h i H L None" and asc: "ascending h L" and Hn: "H \<notin> set L"
    and i: "\<not> i < lvl"
  shows "chain h' i H L None" and "ascending h' L"
proof -
  have d: "distinct (H # L)" using Hn ascending_distinct [OF asc] by simp
  show "chain h' i H L None"
  proof (rule chain_frame_same [OF c d])
    fix a assume "a \<in> set (H # L)"
    from chain_valid [OF c this] have a: "a < length h" "i < length (nxt (h ! a))" by simp_all
    show "a < length h' \<and> i < length (nxt (h' ! a)) \<and> nxt (h' ! a) ! i = nxt (h ! a) ! i"
      using inserted_old [OF ins a(1)] a(2) i by simp
  qed
  have "ascending h' L = ascending h L"
    by (rule ascending_cong) (use chain_valid [OF c] inserted_old(2) [OF ins] in simp)
  then show "ascending h' L" using asc by simp
qed

lemma inserted_level_in:
  assumes ins: "inserted h h' k v lvl P"
    and c: "chain h i H L None" and asc: "ascending h L" and Hn: "H \<notin> set L"
    and i: "i < lvl" and Pi: "P i = pred_at h k H L"
    and absent: "\<And>a. a \<in> set L \<Longrightarrow> key (h ! a) \<noteq> k"
  shows "chain h' i H (takeWhile (klt h k) L @ length h # dropWhile (klt h k) L) None"
    and "ascending h' (takeWhile (klt h k) L @ length h # dropWhile (klt h k) L)"
    and "H \<notin> set (takeWhile (klt h k) L @ length h # dropWhile (klt h k) L)"
proof -
  define A where "A = takeWhile (klt h k) L"
  define B where "B = dropWhile (klt h k) L"
  have L: "L = A @ B" by (simp add: A_def B_def)
  have d: "distinct (H # A @ B)" using Hn ascending_distinct [OF asc] by (simp add: L)
  have valid: "a < length h \<and> i < length (nxt (h ! a))" if "a \<in> set (H # A @ B)" for a
    using chain_valid [OF c, of a] that by (simp add: L)
  have HA: "H < length h" using valid [of H] by simp
  have cA: "chain h i H A (head_opt B)" using c unfolding L by (rule chain_prefix)
  have Plast: "P i = last (H # A)" by (simp add: Pi pred_at_def A_def)
  have Pin: "P i \<in> set (H # A)" unfolding Plast by (rule last_in_set) simp
  have Pv: "P i < length h" "i < length (nxt (h ! P i))" using valid [of "P i"] Pin by auto
  have Pnext: "nxt (h ! P i) ! i = head_opt B" using chain_last [OF cA] by (simp add: Plast)
  have P': "nxt (h' ! P i) ! i = Some (length h)"
    using inserted_old(5) [OF ins Pv(1) Pv(2)] i by simp
  have cA': "chain h' i H A (Some (length h))"
  proof -
    have "chain h' i H A (nxt (h' ! last (H # A)) ! i)"
    proof (rule chain_frame [OF cA])
      show "distinct (H # A)" using d by simp
      fix a assume a: "a \<in> set (H # A)"
      then have v: "a < length h" "i < length (nxt (h ! a))" using valid [of a] by auto
      show "a < length h' \<and> i < length (nxt (h' ! a))
          \<and> (a \<noteq> last (H # A) \<longrightarrow> nxt (h' ! a) ! i = nxt (h ! a) ! i)"
        using inserted_old [OF ins v(1)] v(2) Plast by simp
    qed
    then show ?thesis using P' Plast by simp
  qed
  have n': "nxt (h' ! length h) ! i = head_opt B"
    using inserted_new(5) [OF ins i] Pnext by simp
  have cB': "chain h' i (length h) B None"
  proof (cases B)
    case Nil
    then show ?thesis using inserted_new [OF ins] n' i by (simp add: head_opt_def)
  next
    case (Cons b bs)
    have cb: "chain h i b bs None" using c unfolding L Cons by (rule chain_suffix)
    have "chain h' i b bs None"
    proof (rule chain_frame_same [OF cb])
      show "distinct (b # bs)" using d Cons by simp
      fix a assume a: "a \<in> set (b # bs)"
      then have aB: "a \<in> set B" using Cons by simp
      then have v: "a < length h" "i < length (nxt (h ! a))" using valid [of a] by auto
      have "a \<noteq> P i" using Pin aB d by auto
      then show "a < length h' \<and> i < length (nxt (h' ! a)) \<and> nxt (h' ! a) ! i = nxt (h ! a) ! i"
        using inserted_old [OF ins v(1)] v(2) by simp
    qed
    then show ?thesis using inserted_new [OF ins] n' i Cons by (simp add: head_opt_def)
  qed
  show "chain h' i H (takeWhile (klt h k) L @ length h # dropWhile (klt h k) L) None"
    using cA' cB' by (simp add: chain_append A_def B_def)
  have keys: "key (h' ! a) = key (h ! a)" if "a \<in> set (A @ B)" for a
    using inserted_old(2) [OF ins, of a] valid [of a] that by simp
  have ascA: "ascending h' A"
    using ascending_cong [of A h' h] keys asc by (simp add: L ascending_append)
  have ascB: "ascending h' B"
    using ascending_cong [of B h' h] keys asc by (simp add: L ascending_append)
  have Alt: "bytes_Compare (key (h' ! a)) k < 0" if "a \<in> set A" for a
    using takeWhile_klt [of a h k L] that keys [of a] by (simp add: A_def klt_def)
  have Bgt: "bytes_Compare k (key (h' ! b)) < 0" if "b \<in> set B" for b
  proof -
    have "\<not> klt h k b" using dropWhile_ge [OF asc, of b k] that by (simp add: B_def)
    moreover have "key (h ! b) \<noteq> k" using absent [of b] that by (simp add: L)
    ultimately show ?thesis using not_klt_gt [of h k b] keys [of b] that by simp
  qed
  have AB: "bytes_Compare (key (h' ! a)) (key (h' ! b)) < 0" if "a \<in> set A" "b \<in> set B" for a b
    using bytes_Compare_trans [OF Alt [OF that(1)] Bgt [OF that(2)]] .
  show "ascending h' (takeWhile (klt h k) L @ length h # dropWhile (klt h k) L)"
    using ascA ascB Alt Bgt AB inserted_new(2) [OF ins]
    by (simp add: ascending_append ascending_Cons A_def [symmetric] B_def [symmetric])
  show "H \<notin> set (takeWhile (klt h k) L @ length h # dropWhile (klt h k) L)"
    using Hn HA by (auto dest: set_takeWhileD set_dropWhileD)
qed

lemma level_loop_bounds:
  "lvl \<le> m \<Longrightarrow> lvl \<le> fst (level_loop rng d m lvl) \<and> fst (level_loop rng d m lvl) \<le> m"
proof (induction rng d m lvl rule: level_loop.induct)
  case (1 rng d m lvl)
  show ?case
  proof (cases "lvl < m")
    case True
    show ?thesis
    proof (cases "rng d")
      case r: True
      have "Suc lvl \<le> m" using True by simp
      from "1.IH" [OF True r this]
      have "Suc lvl \<le> fst (level_loop rng (Suc d) m (Suc lvl))
          \<and> fst (level_loop rng (Suc d) m (Suc lvl)) \<le> m" .
      moreover have "level_loop rng d m lvl = level_loop rng (Suc d) m (Suc lvl)"
        using True r by (subst level_loop.simps) simp
      ultimately show ?thesis by simp
    next
      case False
      have "level_loop rng d m lvl = (lvl, Suc d)"
        using True False by (subst level_loop.simps) simp
      then show ?thesis using "1.prems" by simp
    qed
  next
    case False
    have "level_loop rng d m lvl = (lvl, d)"
      using False by (subst level_loop.simps) simp
    then show ?thesis using "1.prems" by simp
  qed
qed

lemma pred_at_valid:
  assumes "chain h i H L None"
  shows "pred_at h k H L < length h" and "i < length (nxt (h ! pred_at h k H L))"
proof -
  have "pred_at h k H L \<in> set (H # L)" using pred_at_cases [of h k H L] by auto
  from chain_valid [OF assms this]
  show "pred_at h k H L < length h" and "i < length (nxt (h ! pred_at h k H L))" by simp_all
qed

lemma set_val_same:
  "length (h[y := (h ! y)\<lparr>val := v\<rparr>]) = length h"
  "key (h[y := (h ! y)\<lparr>val := v\<rparr>] ! a) = key (h ! a)"
  "nxt (h[y := (h ! y)\<lparr>val := v\<rparr>] ! a) = nxt (h ! a)"
proof -
  show "length (h[y := (h ! y)\<lparr>val := v\<rparr>]) = length h" by simp
  show "key (h[y := (h ! y)\<lparr>val := v\<rparr>] ! a) = key (h ! a)"
    by (cases "y < length h") (simp_all add: nth_list_update list_update_beyond not_less)
  show "nxt (h[y := (h ! y)\<lparr>val := v\<rparr>] ! a) = nxt (h ! a)"
    by (cases "y < length h") (simp_all add: nth_list_update list_update_beyond not_less)
qed

lemma Put_overwrite_inv:
  assumes inv: "sl_inv s L"
    and d: "dropWhile (klt (nodes s) k) (L 0) = y # bs" and ky: "key (nodes s ! y) = k"
  shows "sl_inv (s\<lparr>nodes := (nodes s)[y := (nodes s ! y)\<lparr>val := v\<rparr>]\<rparr>) L"
    and "map_of (sl_entries ((nodes s)[y := (nodes s ! y)\<lparr>val := v\<rparr>]) (L 0))
          = (map_of (sl_entries (nodes s) (L 0)))(k \<mapsto> v)"
proof -
  define h where "h = nodes s"
  define h' where "h' = h[y := (h ! y)\<lparr>val := v\<rparr>]"
  have pos: "0 < MaxLevel s" using inv by (simp add: sl_inv_def)
  have same: "length h' = length h" "key (h' ! a) = key (h ! a)" "nxt (h' ! a) = nxt (h ! a)" for a
    unfolding h'_def by (rule set_val_same)+
  have other: "val (h' ! a) = val (h ! a)" if "a \<noteq> y" for a using that by (simp add: h'_def)
  have lvl: "chain h' i (Head s) (L i) None \<and> ascending h' (L i)" if i: "i < MaxLevel s" for i
  proof
    have c: "chain h i (Head s) (L i) None" using inv_lane(1) [OF inv i] by (simp add: h_def)
    show "chain h' i (Head s) (L i) None"
      by (rule chain_frame_same [OF c])
        (use inv_lane(4) [OF inv i] chain_valid [OF c] same in auto)
    have "ascending h' (L i) = ascending h (L i)" by (rule ascending_cong) (simp add: same)
    then show "ascending h' (L i)" using inv_lane(2) [OF inv i] by (simp add: h_def)
  qed
  show "sl_inv (s\<lparr>nodes := (nodes s)[y := (nodes s ! y)\<lparr>val := v\<rparr>]\<rparr>) L"
    using inv lvl by (simp add: sl_inv_def h'_def h_def)
  define A where "A = takeWhile (klt h k) (L 0)"
  have L0: "L 0 = A @ y # bs" using d by (metis A_def h_def takeWhile_dropWhile_id)
  have dist: "distinct (A @ y # bs)" using inv_lane(4) [OF inv pos] by (simp add: L0)
  have c0: "chain h 0 (Head s) (L 0) None" using inv_lane(1) [OF inv pos] by (simp add: h_def)
  have yv: "y < length h" using chain_valid [OF c0, of y] by (simp add: L0)
  have neA: "a \<noteq> y" if "a \<in> set A" for a using dist that by auto
  have neB: "a \<noteq> y" if "a \<in> set bs" for a using dist that by auto
  have eA: "sl_entries h' A = sl_entries h A"
    by (rule sl_entries_cong) (simp add: same(2) other [OF neA])
  have eB: "sl_entries h' bs = sl_entries h bs"
    by (rule sl_entries_cong) (simp add: same(2) other [OF neB])
  have ey: "val (h' ! y) = v" using yv by (simp add: h'_def)
  have kA: "k \<notin> fst ` set (sl_entries h A)"
    by (rule klt_keys_ne) (use takeWhile_klt A_def in blast)
  have new: "sl_entries h' (L 0) = sl_entries h A @ (k, v) # sl_entries h bs"
    using eA eB ey same(2) [of y] ky by (simp add: L0 h_def)
  have old: "sl_entries h (L 0) = sl_entries h A @ (k, val (h ! y)) # sl_entries h bs"
    using ky by (simp add: L0 h_def)
  have "map_of (sl_entries h' (L 0)) = (map_of (sl_entries h (L 0)))(k \<mapsto> v)"
    unfolding new old map_of_insert [OF kA] by simp
  then show "map_of (sl_entries ((nodes s)[y := (nodes s ! y)\<lparr>val := v\<rparr>]) (L 0))
          = (map_of (sl_entries (nodes s) (L 0)))(k \<mapsto> v)"
    by (simp add: h'_def h_def)
qed

lemma Put_insert_inv:
  assumes inv: "sl_inv s L"
    and ins: "inserted (nodes s) h' k v lvl (\<lambda>i. pred_at (nodes s) k (Head s) (L i))"
    and lvl: "0 < lvl" "lvl \<le> MaxLevel s"
    and absent: "\<And>a. a \<in> set (L 0) \<Longrightarrow> key (nodes s ! a) \<noteq> k"
  shows "\<exists>L'. sl_inv (s\<lparr>nodes := h', drawn := d\<rparr>) L'
          \<and> map_of (sl_entries h' (L' 0)) = (map_of (sl_entries (nodes s) (L 0)))(k \<mapsto> v)"
proof -
  define h where "h = nodes s"
  define A where "A = (\<lambda>i. takeWhile (klt h k) (L i))"
  define B where "B = (\<lambda>i. dropWhile (klt h k) (L i))"
  define L' where "L' = (\<lambda>i. if i < lvl then A i @ length h # B i else L i)"
  have pos: "0 < MaxLevel s" using inv by (simp add: sl_inv_def)
  have ins': "inserted h h' k v lvl (\<lambda>i. pred_at h k (Head s) (L i))" using ins by (simp add: h_def)
  have abs: "key (h ! a) \<noteq> k" if "a \<in> set (L i)" "i < MaxLevel s" for a i
    using absent [of a] inv_sub [OF inv _ that(2), of 0] that(1) by (auto simp: h_def)
  have level: "chain h' i (Head s) (L' i) None \<and> ascending h' (L' i) \<and> Head s \<notin> set (L' i)"
    if i: "i < MaxLevel s" for i
  proof -
    have c: "chain h i (Head s) (L i) None" and asc: "ascending h (L i)"
      and Hn: "Head s \<notin> set (L i)"
      using inv_lane(1-3) [OF inv i] by (simp_all add: h_def)
    show ?thesis
    proof (cases "i < lvl")
      case True
      have ab: "key (h ! a) \<noteq> k" if "a \<in> set (L i)" for a using abs [OF that i] .
      show ?thesis
        using inserted_level_in [OF ins' c asc Hn True refl ab] True
        by (simp add: L'_def A_def B_def)
    next
      case False
      then show ?thesis
        using inserted_level_out [OF ins' c asc Hn False] Hn by (simp add: L'_def)
    qed
  qed
  have sub: "set (L' (Suc i)) \<subseteq> set (L' i)" if i: "Suc i < MaxLevel s" for i
  proof -
    have s: "set (L (Suc i)) \<subseteq> set (L i)" using inv i by (simp add: sl_inv_def)
    have u: "set (A j @ length h # B j) = insert (length h) (set (L j))" for j
    proof -
      have "set (A j) \<union> set (B j) = set (L j)"
        unfolding A_def B_def by (metis set_append takeWhile_dropWhile_id)
      then show ?thesis by auto
    qed
    show ?thesis using s u by (auto simp: L'_def)
  qed
  have inv': "sl_inv (s\<lparr>nodes := h', drawn := d\<rparr>) L'"
    using pos level sub by (simp add: sl_inv_def)
  have c0: "chain h 0 (Head s) (L 0) None" using inv_lane(1) [OF inv pos] by (simp add: h_def)
  have AB: "L 0 = A 0 @ B 0" by (simp add: A_def B_def)
  have oldn: "a < length h" if "a \<in> set (A 0 @ B 0)" for a
    using chain_valid [OF c0, of a] that AB by simp
  have eA: "sl_entries h' (A 0) = sl_entries h (A 0)"
    by (rule sl_entries_cong) (use oldn inserted_old [OF ins'] in auto)
  have eB: "sl_entries h' (B 0) = sl_entries h (B 0)"
    by (rule sl_entries_cong) (use oldn inserted_old [OF ins'] in auto)
  have kA: "k \<notin> fst ` set (sl_entries h (A 0))"
    by (rule klt_keys_ne) (use takeWhile_klt A_def in blast)
  have "sl_entries h' (L' 0) = sl_entries h (A 0) @ (k, v) # sl_entries h (B 0)"
    using lvl(1) eA eB inserted_new(2,3) [OF ins'] by (simp add: L'_def)
  then have "map_of (sl_entries h' (L' 0)) = (map_of (sl_entries h (A 0 @ B 0)))(k \<mapsto> v)"
    using map_of_insert [OF kA] by simp
  then have "map_of (sl_entries h' (L' 0)) = (map_of (sl_entries (nodes s) (L 0)))(k \<mapsto> v)"
    using AB by (simp add: h_def)
  with inv' show ?thesis by blast
qed

lemma SkipList_Put_inv:
  assumes inv: "sl_inv s L"
  shows "\<exists>s' L'. SkipList_Put s k v = (None, s') \<and> sl_inv s' L'
           \<and> map_of (sl_entries (nodes s') (L' 0)) = (map_of (sl_entries (nodes s) (L 0)))(k \<mapsto> v)"
proof -
  define h where "h = nodes s"
  define P where "P = (\<lambda>i. pred_at h k (Head s) (L i))"
  define upd where "upd = map (\<lambda>i. Some (P i)) [0 ..< MaxLevel s]"
  define B where "B = dropWhile (klt h k) (L 0)"
  have pos: "0 < MaxLevel s" using inv by (simp add: sl_inv_def)
  have c0: "chain h 0 (Head s) (L 0) None" using inv_lane(1) [OF inv pos] by (simp add: h_def)
  have asc0: "ascending h (L 0)" using inv_lane(2) [OF inv pos] by (simp add: h_def)
  have du: "descend_update h k (MaxLevel s) (Head s) (replicate (MaxLevel s) None) = Inr (P 0, upd)"
    using descend_update_top [OF inv, of k] by (simp add: h_def P_def upd_def)
  have nx: "next_at h (P 0) 0 = Inr (head_opt B)"
    unfolding P_def B_def by (rule next_at_pred [OF c0])
  have Bv: "b < length h" if "B = b # bs" for b bs
  proof -
    have "b \<in> set (L 0)" using that unfolding B_def by (metis list.set_intros(1) set_dropWhileD)
    then show ?thesis using chain_valid [OF c0, of b] by simp
  qed
  show ?thesis
  proof (cases "\<exists>y bs. B = y # bs \<and> key (h ! y) = k")
    case True
    then obtain y bs where B: "B = y # bs" and ky: "key (h ! y) = k" by blast
    have run: "SkipList_Put s k v = (None, s\<lparr>nodes := h[y := (h ! y)\<lparr>val := v\<rparr>]\<rparr>)"
      using du nx Bv [OF B] ky unfolding h_def
      by (simp add: SkipList_Put_def B head_opt_def)
    from Put_overwrite_inv [OF inv, of k y bs v] B ky
    have "sl_inv (s\<lparr>nodes := h[y := (h ! y)\<lparr>val := v\<rparr>]\<rparr>) L"
      and "map_of (sl_entries (h[y := (h ! y)\<lparr>val := v\<rparr>]) (L 0))
          = (map_of (sl_entries h (L 0)))(k \<mapsto> v)"
      by (simp_all add: h_def B_def)
    with run show ?thesis by (auto simp: h_def)
  next
    case False
    have cond: "\<not> (case head_opt B of None \<Rightarrow> False
        | Some y \<Rightarrow> y < length h \<and> bytes_Compare (key (h ! y)) k = 0)"
      using False by (cases B) (auto simp: head_opt_def bytes_Compare_eq_0)
    obtain lvl d where ll: "level_loop (RNG s) (drawn s) (MaxLevel s) 1 = (lvl, d)"
      by (cases "level_loop (RNG s) (drawn s) (MaxLevel s) 1")
    have lvl: "0 < lvl" "lvl \<le> MaxLevel s"
      using level_loop_bounds [of 1 "MaxLevel s" "RNG s" "drawn s"] pos ll by simp_all
    have Pv: "P i < length h \<and> i < length (nxt (h ! P i))" if "i < lvl" for i
    proof -
      have "i < MaxLevel s" using that lvl by simp
      from pred_at_valid [OF inv_lane(1) [OF inv this], of k] show ?thesis by (simp add: P_def h_def)
    qed
    from link_inserted [OF lvl(2) Pv, of k v] obtain h' where
      link: "link_loop (h @ [\<lparr> key = k, val = v, nxt = replicate lvl None \<rparr>]) upd (length h) [0 ..< lvl] = Inr h'"
      and ins: "inserted h h' k v lvl P"
      unfolding upd_def by blast
    have run: "SkipList_Put s k v = (None, s\<lparr>nodes := h', drawn := d\<rparr>)"
      using du nx cond ll link unfolding h_def
      by (simp add: SkipList_Put_def Let_def)
    have absent: "key (nodes s ! a) \<noteq> k" if "a \<in> set (L 0)" for a
    proof -
      have "\<forall>a \<in> set (L 0). key (h ! a) \<noteq> k"
        by (rule key_absent [OF asc0]) (use False B_def in auto)
      then show ?thesis using that by (simp add: h_def)
    qed
    from Put_insert_inv [OF inv _ lvl absent, of h' v d] ins
    obtain L' where "sl_inv (s\<lparr>nodes := h', drawn := d\<rparr>) L'"
      "map_of (sl_entries h' (L' 0)) = (map_of (sl_entries (nodes s) (L 0)))(k \<mapsto> v)"
      by (auto simp: h_def P_def)
    with run show ?thesis by auto
  qed
qed

lemma skiplist_New_inv: "sl_inv (skiplist_New coins) (\<lambda>i. [])"
  by (simp add: sl_inv_def skiplist_New_def ascending_def)

lemma removed_old:
  assumes "removed h h' x m P" and "a < length h"
  shows "a < length h'" "key (h' ! a) = key (h ! a)" "val (h' ! a) = val (h ! a)"
    "length (nxt (h' ! a)) = length (nxt (h ! a))"
    "l < length (nxt (h ! a)) \<Longrightarrow>
       nxt (h' ! a) ! l =
         (if l < m \<and> a = P l \<and> nxt (h ! a) ! l = Some x then nxt (h ! x) ! l else nxt (h ! a) ! l)"
  using assms by (simp_all add: removed_def same_shape_def)

lemma filter_ne_notin: "x \<notin> set xs \<Longrightarrow> filter (\<lambda>a. a \<noteq> x) xs = xs"
  by (induction xs) auto

lemma ascending_filter: "ascending h xs \<Longrightarrow> ascending h (filter Q xs)"
  unfolding ascending_def by (rule sorted_wrt_filter)

lemma removed_level:
  assumes rem: "removed h h' x m P"
    and c: "chain h i H L None" and asc: "ascending h L" and Hn: "H \<notin> set L"
    and i: "i < m" and Pi: "P i = pred_at h k H L" and kx: "key (h ! x) = k"
  shows "chain h' i H (filter (\<lambda>a. a \<noteq> x) L) None"
    and "ascending h' (filter (\<lambda>a. a \<noteq> x) L)"
proof -
  define A where "A = takeWhile (klt h k) L"
  define B where "B = dropWhile (klt h k) L"
  have L: "L = A @ B" by (simp add: A_def B_def)
  have d: "distinct (H # A @ B)" using Hn ascending_distinct [OF asc] by (simp add: L)
  have valid: "a < length h \<and> i < length (nxt (h ! a))" if "a \<in> set (H # A @ B)" for a
    using chain_valid [OF c, of a] that by (simp add: L)
  have cA: "chain h i H A (head_opt B)" using c unfolding L by (rule chain_prefix)
  have Plast: "P i = last (H # A)" by (simp add: Pi pred_at_def A_def)
  have Pin: "P i \<in> set (H # A)" unfolding Plast by (rule last_in_set) simp
  have Pv: "P i < length h" "i < length (nxt (h ! P i))" using valid [of "P i"] Pin by auto
  have Pnext: "nxt (h ! P i) ! i = head_opt B" using chain_last [OF cA] by (simp add: Plast)
  have keys: "key (h' ! a) = key (h ! a)" if "a \<in> set L" for a
    using removed_old(2) [OF rem, of a] valid [of a] that by (simp add: L)
  have "ascending h' (filter (\<lambda>a. a \<noteq> x) L) = ascending h (filter (\<lambda>a. a \<noteq> x) L)"
    by (rule ascending_cong) (use keys in simp)
  then show "ascending h' (filter (\<lambda>a. a \<noteq> x) L)" using ascending_filter [OF asc] by simp
  show "chain h' i H (filter (\<lambda>a. a \<noteq> x) L) None"
  proof (cases "x \<in> set L")
    case False
    have hb: "head_opt B \<noteq> Some x"
    proof (cases B)
      case Nil
      then show ?thesis by (simp add: head_opt_def)
    next
      case (Cons b bs)
      then have "b \<in> set L" using L by simp
      then show ?thesis using False Cons by (auto simp: head_opt_def)
    qed
    have "chain h' i H L None"
    proof (rule chain_frame_same [OF c])
      show "distinct (H # L)" using d L by simp
      fix a assume a: "a \<in> set (H # L)"
      then have v: "a < length h" "i < length (nxt (h ! a))" using valid [of a] L by auto
      have "\<not> (a = P i \<and> nxt (h ! a) ! i = Some x)" using Pnext hb by auto
      then show "a < length h' \<and> i < length (nxt (h' ! a)) \<and> nxt (h' ! a) ! i = nxt (h ! a) ! i"
        using removed_old [OF rem v(1)] v(2) by auto
    qed
    then show ?thesis using False by (simp add: filter_ne_notin)
  next
    case True
    from key_only_head [OF asc True kx] obtain bs where B: "B = x # bs" by (auto simp: B_def)
    have xs: "x \<notin> set A" "x \<notin> set bs" "x \<noteq> H" using d B by auto
    have filt: "filter (\<lambda>a. a \<noteq> x) L = A @ bs"
      using xs by (simp add: L B filter_ne_notin)
    have cx: "chain h i x bs None" using c unfolding L B by (rule chain_suffix)
    have xn: "nxt (h ! x) ! i = head_opt bs"
      using chain_last [OF chain_prefix [of h i x "[]" bs]] cx by simp
    have P': "nxt (h' ! P i) ! i = head_opt bs"
      using removed_old(5) [OF rem Pv(1) Pv(2)] i Pnext B xn by (simp add: head_opt_def)
    have cA': "chain h' i H A (head_opt bs)"
    proof -
      have "chain h' i H A (nxt (h' ! last (H # A)) ! i)"
      proof (rule chain_frame [OF cA])
        show "distinct (H # A)" using d by simp
        fix a assume a: "a \<in> set (H # A)"
        then have v: "a < length h" "i < length (nxt (h ! a))" using valid [of a] by auto
        show "a < length h' \<and> i < length (nxt (h' ! a))
            \<and> (a \<noteq> last (H # A) \<longrightarrow> nxt (h' ! a) ! i = nxt (h ! a) ! i)"
          using removed_old [OF rem v(1)] v(2) Plast by simp
      qed
      then show ?thesis using P' Plast by simp
    qed
    show ?thesis
    proof (cases bs)
      case Nil
      then show ?thesis using cA' filt by (simp add: head_opt_def)
    next
      case (Cons b bs')
      have cb: "chain h i b bs' None" using cx unfolding Cons by simp
      have "chain h' i b bs' None"
      proof (rule chain_frame_same [OF cb])
        show "distinct (b # bs')" using d B Cons by simp
        fix a assume a: "a \<in> set (b # bs')"
        then have aB: "a \<in> set B" using B Cons by simp
        then have v: "a < length h" "i < length (nxt (h ! a))" using valid [of a] by auto
        have "a \<noteq> P i" using Pin aB d by auto
        then show "a < length h' \<and> i < length (nxt (h' ! a)) \<and> nxt (h' ! a) ! i = nxt (h ! a) ! i"
          using removed_old [OF rem v(1)] v(2) by simp
      qed
      then show ?thesis using cA' filt Cons by (simp add: chain_append head_opt_def)
    qed
  qed
qed

lemma unlink_removed:
  assumes x: "x < length h"
    and P: "\<And>i. i < m \<Longrightarrow> P i < length h \<and> P i \<noteq> x \<and> i < length (nxt (h ! P i))
              \<and> (nxt (h ! P i) ! i = Some x \<longrightarrow> i < length (nxt (h ! x)))"
  shows "\<exists>h'. unlink_loop h (map (\<lambda>i. Some (P i)) [0 ..< m]) x [0 ..< m] = Inr h'
           \<and> removed h h' x m P"
proof -
  have "\<exists>h'. unlink_loop h (map (\<lambda>i. Some (P i)) [0 ..< m]) x [0 ..< m] = Inr h' \<and> same_shape h h'
     \<and> (\<forall>a < length h. \<forall>l < length (nxt (h ! a)).
           nxt (h' ! a) ! l =
             (if l \<in> set [0 ..< m] \<and> a = P l \<and> nxt (h ! a) ! l = Some x then nxt (h ! x) ! l
              else nxt (h ! a) ! l))"
  proof (rule unlink_loop_spec)
    show "distinct [0 ..< m]" by simp
    show "x < length h" by (rule x)
    fix i assume "i \<in> set [0 ..< m]"
    then have i: "i < m" by simp
    show "i < length (map (\<lambda>i. Some (P i)) [0 ..< m])
        \<and> map (\<lambda>i. Some (P i)) [0 ..< m] ! i = Some (P i) \<and> P i < length h \<and> P i \<noteq> x
        \<and> i < length (nxt (h ! P i))
        \<and> (nxt (h ! P i) ! i = Some x \<longrightarrow> i < length (nxt (h ! x)))"
      using P [OF i] i by simp
  qed
  then show ?thesis by (auto simp: removed_def)
qed

lemma Delete_remove_inv:
  assumes inv: "sl_inv s L"
    and rem: "removed (nodes s) h' x (MaxLevel s) (\<lambda>i. pred_at (nodes s) k (Head s) (L i))"
    and d: "dropWhile (klt (nodes s) k) (L 0) = x # bs" and kx: "key (nodes s ! x) = k"
  shows "\<exists>L'. sl_inv (s\<lparr>nodes := h'\<rparr>) L'
          \<and> map_of (sl_entries h' (L' 0)) = (map_of (sl_entries (nodes s) (L 0)))(k := None)"
proof -
  define h where "h = nodes s"
  define L' where "L' = (\<lambda>i. filter (\<lambda>a. a \<noteq> x) (L i))"
  have pos: "0 < MaxLevel s" using inv by (simp add: sl_inv_def)
  have rem': "removed h h' x (MaxLevel s) (\<lambda>i. pred_at h k (Head s) (L i))"
    using rem by (simp add: h_def)
  have level: "chain h' i (Head s) (L' i) None \<and> ascending h' (L' i) \<and> Head s \<notin> set (L' i)"
    if i: "i < MaxLevel s" for i
  proof -
    have c: "chain h i (Head s) (L i) None" and asc: "ascending h (L i)"
      and Hn: "Head s \<notin> set (L i)"
      using inv_lane(1-3) [OF inv i] by (simp_all add: h_def)
    show ?thesis
      using removed_level [OF rem' c asc Hn i refl] kx Hn by (simp add: L'_def h_def)
  qed
  have sub: "set (L' (Suc i)) \<subseteq> set (L' i)" if i: "Suc i < MaxLevel s" for i
  proof -
    have "set (L (Suc i)) \<subseteq> set (L i)" using inv i by (simp add: sl_inv_def)
    then show ?thesis by (auto simp: L'_def)
  qed
  have inv': "sl_inv (s\<lparr>nodes := h'\<rparr>) L'"
    using pos level sub by (simp add: sl_inv_def)
  define A where "A = takeWhile (klt h k) (L 0)"
  have L0: "L 0 = A @ x # bs" using d by (metis A_def h_def takeWhile_dropWhile_id)
  have asc0: "ascending h (L 0)" using inv_lane(2) [OF inv pos] by (simp add: h_def)
  have dist: "distinct (A @ x # bs)" using inv_lane(4) [OF inv pos] by (simp add: L0)
  have c0: "chain h 0 (Head s) (L 0) None" using inv_lane(1) [OF inv pos] by (simp add: h_def)
  have filt: "L' 0 = A @ bs" using dist by (simp add: L'_def L0 filter_ne_notin)
  have oldn: "a < length h" if "a \<in> set (A @ bs)" for a
    using chain_valid [OF c0, of a] that L0 by auto
  have e: "sl_entries h' (A @ bs) = sl_entries h (A @ bs)"
    by (rule sl_entries_cong) (use oldn removed_old [OF rem'] in blast)
  have kA: "k \<notin> fst ` set (sl_entries h A)"
    by (rule klt_keys_ne) (use takeWhile_klt A_def in blast)
  have kB: "k \<notin> fst ` set (sl_entries h bs)"
  proof (rule gt_keys_ne, rule ballI)
    fix b assume "b \<in> set bs"
    from dropWhile_tail_gt [OF asc0 _ this, of k x] d kx
    show "bytes_Compare k (key (h ! b)) < 0" by (simp add: h_def)
  qed
  have none: "map_of (sl_entries h (A @ bs)) k = None"
    by (rule map_of_absent) (use kA kB in auto)
  have old: "map_of (sl_entries h (L 0)) = (map_of (sl_entries h (A @ bs)))(k \<mapsto> val (h ! x))"
    using map_of_insert [OF kA, of "val (h ! x)" "sl_entries h bs"] kx by (simp add: L0 h_def)
  have "(map_of (sl_entries h (L 0)))(k := None) = map_of (sl_entries h (A @ bs))"
    unfolding old using none by (simp add: fun_upd_idem)
  then have "map_of (sl_entries h' (L' 0)) = (map_of (sl_entries (nodes s) (L 0)))(k := None)"
    using e filt by (simp add: h_def)
  with inv' show ?thesis by blast
qed

lemma SkipList_Delete_inv:
  assumes inv: "sl_inv s L"
  shows "\<exists>e s' L'. SkipList_Delete s k = (e, s') \<and> (e = None \<or> e = Some ErrNotFound)
           \<and> sl_inv s' L'
           \<and> map_of (sl_entries (nodes s') (L' 0)) = (map_of (sl_entries (nodes s) (L 0)))(k := None)"
proof -
  define h where "h = nodes s"
  define P where "P = (\<lambda>i. pred_at h k (Head s) (L i))"
  define upd where "upd = map (\<lambda>i. Some (P i)) [0 ..< MaxLevel s]"
  define B where "B = dropWhile (klt h k) (L 0)"
  have pos: "0 < MaxLevel s" using inv by (simp add: sl_inv_def)
  have c0: "chain h 0 (Head s) (L 0) None" using inv_lane(1) [OF inv pos] by (simp add: h_def)
  have asc0: "ascending h (L 0)" using inv_lane(2) [OF inv pos] by (simp add: h_def)
  have du: "descend_update h k (MaxLevel s) (Head s) (replicate (MaxLevel s) None) = Inr (P 0, upd)"
    using descend_update_top [OF inv, of k] by (simp add: h_def P_def upd_def)
  have nx: "next_at h (P 0) 0 = Inr (head_opt B)"
    unfolding P_def B_def by (rule next_at_pred [OF c0])
  have look: "map_of (sl_entries h (L 0)) k =
     (case B of [] \<Rightarrow> None | b # bs \<Rightarrow> if key (h ! b) = k then Some (val (h ! b)) else None)"
    unfolding B_def by (rule entries_lookup [OF asc0])
  show ?thesis
  proof (cases "\<exists>x bs. B = x # bs \<and> key (h ! x) = k")
    case False
    have gone: "map_of (sl_entries h (L 0)) k = None"
      using look False by (cases B) auto
    have run: "SkipList_Delete s k = (Some ErrNotFound, s)"
    proof (cases B)
      case Nil
      then show ?thesis using du nx unfolding h_def by (simp add: SkipList_Delete_def head_opt_def)
    next
      case (Cons b bs)
      then have "key (h ! b) \<noteq> k" using False by simp
      moreover have "b \<in> set (L 0)"
        using Cons unfolding B_def by (metis list.set_intros(1) set_dropWhileD)
      then have "b < length h" using chain_valid [OF c0, of b] by simp
      ultimately show ?thesis
        using du nx Cons unfolding h_def
        by (simp add: SkipList_Delete_def head_opt_def bytes_Compare_eq_0)
    qed
    have "(map_of (sl_entries (nodes s) (L 0)))(k := None) = map_of (sl_entries (nodes s) (L 0))"
      using gone by (simp add: h_def fun_upd_idem)
    with run inv show ?thesis by auto
  next
    case True
    then obtain x bs where B: "B = x # bs" and kx: "key (h ! x) = k" by blast
    have xin: "x \<in> set (L 0)" using B unfolding B_def by (metis list.set_intros(1) set_dropWhileD)
    have xv: "x < length h" using chain_valid [OF c0, of x] xin by simp
    have Pv: "P i < length h \<and> P i \<noteq> x \<and> i < length (nxt (h ! P i))
              \<and> (nxt (h ! P i) ! i = Some x \<longrightarrow> i < length (nxt (h ! x)))"
      if i: "i < MaxLevel s" for i
    proof -
      have c: "chain h i (Head s) (L i) None" using inv_lane(1) [OF inv i] by (simp add: h_def)
      have v: "P i < length h" "i < length (nxt (h ! P i))"
        using pred_at_valid [OF c, of k] by (simp_all add: P_def)
      have Hx: "Head s \<noteq> x"
        using inv_lane(3) [OF inv pos] xin by auto
      have ne: "P i \<noteq> x"
        using pred_at_cases [of h k "Head s" "L i"] Hx kx by (auto simp: P_def klt_def)
      have nx: "nxt (h ! P i) ! i = head_opt (dropWhile (klt h k) (L i))"
        using next_at_pred [OF c, of k] v by (simp add: P_def next_at_def)
      have "i < length (nxt (h ! x))" if "nxt (h ! P i) ! i = Some x"
      proof -
        have "x \<in> set (dropWhile (klt h k) (L i))"
          using that nx by (cases "dropWhile (klt h k) (L i)") (auto simp: head_opt_def)
        then have "x \<in> set (L i)" by (rule set_dropWhileD)
        then show ?thesis using chain_valid [OF c, of x] by simp
      qed
      then show ?thesis using v ne by simp
    qed
    from unlink_removed [OF xv Pv] obtain h' where
      ul: "unlink_loop h upd x [0 ..< MaxLevel s] = Inr h'"
      and rem: "removed h h' x (MaxLevel s) P"
      unfolding upd_def by blast
    have run: "SkipList_Delete s k = (None, s\<lparr>nodes := h'\<rparr>)"
      using du nx B xv kx ul unfolding h_def
      by (simp add: SkipList_Delete_def head_opt_def)
    from Delete_remove_inv [OF inv, of h' x k bs] rem B kx
    obtain L' where "sl_inv (s\<lparr>nodes := h'\<rparr>) L'"
      "map_of (sl_entries h' (L' 0)) = (map_of (sl_entries (nodes s) (L 0)))(k := None)"
      by (auto simp: h_def P_def B_def)
    with run show ?thesis by auto
  qed
qed

lemma iter_collect_end: "0 < fuel \<Longrightarrow> iter_collect h fuel \<lparr> cur = None, it_end = fin \<rparr> = Inr []"
  by (cases fuel) (simp_all add: scanIter_Next_def)

lemma scanIter_Next_stop:
  "c < length h \<Longrightarrow> \<not> before h fin c \<Longrightarrow>
   scanIter_Next h \<lparr> cur = Some c, it_end = fin \<rparr> = (Inr None, \<lparr> cur = None, it_end = fin \<rparr>)"
  by (cases fin) (simp_all add: scanIter_Next_def before_def)

lemma scanIter_Next_yield:
  "c < length h \<Longrightarrow> before h fin c \<Longrightarrow> next_at h c 0 = Inr e \<Longrightarrow>
   scanIter_Next h \<lparr> cur = Some c, it_end = fin \<rparr>
     = (Inr (Some (key (h ! c), val (h ! c))), \<lparr> cur = e, it_end = fin \<rparr>)"
  by (cases fin) (simp_all add: scanIter_Next_def before_def)

lemma iter_collect_chain:
  "chain h 0 c cs None \<Longrightarrow> Suc (length cs) < fuel \<Longrightarrow>
   iter_collect h fuel \<lparr> cur = Some c, it_end = fin \<rparr>
     = Inr (sl_entries h (takeWhile (before h fin) (c # cs)))"
proof (induction cs arbitrary: c fuel)
  case Nil
  then obtain f where f: "fuel = Suc f" "0 < f" by (cases fuel) auto
  have c: "c < length h" and nx: "next_at h c 0 = Inr None"
    using Nil.prems(1) by (simp_all add: next_at_def)
  show ?case
  proof (cases "before h fin c")
    case True
    show ?thesis
      using scanIter_Next_yield [OF c True nx] iter_collect_end [OF f(2), of h fin] True
      by (simp add: f(1))
  next
    case False
    show ?thesis using scanIter_Next_stop [OF c False] False by (simp add: f(1))
  qed
next
  case (Cons d ds)
  then obtain f where f: "fuel = Suc f" "Suc (length ds) < f" by (cases fuel) auto
  have c: "c < length h" and nx: "next_at h c 0 = Inr (Some d)" and cd: "chain h 0 d ds None"
    using Cons.prems(1) by (simp_all add: next_at_def)
  show ?case
  proof (cases "before h fin c")
    case True
    show ?thesis
      using scanIter_Next_yield [OF c True nx] Cons.IH [OF cd f(2)] True
      by (simp add: f(1))
  next
    case False
    show ?thesis using scanIter_Next_stop [OF c False] False by (simp add: f(1))
  qed
qed

lemma iter_collect_lane:
  assumes "chain h 0 x (as @ bs) None" and "length bs < length h"
  shows "next_at h (last (x # as)) 0 = Inr (head_opt bs)"
    and "iter_collect h (Suc (length h)) \<lparr> cur = head_opt bs, it_end = fin \<rparr>
       = Inr (sl_entries h (takeWhile (before h fin) bs))"
proof -
  show "next_at h (last (x # as)) 0 = Inr (head_opt bs)"
    by (rule next_at_chain [OF chain_prefix [OF assms(1)]])
  show "iter_collect h (Suc (length h)) \<lparr> cur = head_opt bs, it_end = fin \<rparr>
       = Inr (sl_entries h (takeWhile (before h fin) bs))"
  proof (cases bs)
    case Nil
    then show ?thesis using iter_collect_end [of "Suc (length h)" h fin] by (simp add: head_opt_def)
  next
    case (Cons c cs)
    have "chain h 0 c cs None" using assms(1) unfolding Cons by (rule chain_suffix)
    from iter_collect_chain [OF this, of "Suc (length h)" fin] assms(2) Cons
    show ?thesis by (simp add: head_opt_def)
  qed
qed

lemma Scan_all_inv:
  assumes inv: "sl_inv s L"
  shows "Scan_all s start fin
     = Inr (sl_entries (nodes s)
         (takeWhile (before (nodes s) (Scan_end fin)) (scan_from (nodes s) start (L 0))))"
proof -
  define h where "h = nodes s"
  have pos: "0 < MaxLevel s" using inv by (simp add: sl_inv_def)
  have c0: "chain h 0 (Head s) (L 0) None" using inv_lane(1) [OF inv pos] by (simp add: h_def)
  have len: "length (L 0) < length h" using inv_lane(5) [OF inv pos] by (simp add: h_def)
  show ?thesis
  proof (cases start)
    case None
    have c: "chain h 0 (Head s) ([] @ L 0) None" using c0 by simp
    from iter_collect_lane(1) [OF c len] iter_collect_lane(2) [OF c len, where fin = "Scan_end fin"]
    show ?thesis
      unfolding h_def by (simp add: Scan_all_def SkipList_Scan_def None scan_from_def)
  next
    case (Some a)
    define A where "A = takeWhile (klt h a) (L 0)"
    define B where "B = dropWhile (klt h a) (L 0)"
    have c: "chain h 0 (Head s) (A @ B) None" using c0 by (simp add: A_def B_def)
    have lb: "length B < length h" using len by (simp add: B_def) (metis le_less_trans length_dropWhile_le)
    have p: "pred_at h a (Head s) (L 0) = last (Head s # A)" by (simp add: pred_at_def A_def)
    from iter_collect_lane(1) [OF c lb] iter_collect_lane(2) [OF c lb, where fin = "Scan_end fin"]
      descend_inv [OF inv, of a]
    show ?thesis
      unfolding h_def
      by (simp add: Scan_all_def SkipList_Scan_def Some scan_from_def p [unfolded h_def]
          B_def [unfolded h_def])
  qed
qed

lemma set_dropWhile_asc:
  assumes "ascending h xs"
  shows "set (dropWhile (klt h a) xs) = {x \<in> set xs. \<not> klt h a x}"
proof (intro equalityI subsetI)
  fix x assume x: "x \<in> set (dropWhile (klt h a) xs)"
  then show "x \<in> {x \<in> set xs. \<not> klt h a x}"
    using dropWhile_ge [OF assms x] set_dropWhileD [OF x] by simp
next
  fix x assume "x \<in> {x \<in> set xs. \<not> klt h a x}"
  then have x: "x \<in> set xs" "\<not> klt h a x" by simp_all
  then have "x \<notin> set (takeWhile (klt h a) xs)" using takeWhile_klt by blast
  then show "x \<in> set (dropWhile (klt h a) xs)"
    using x(1) by (metis Un_iff set_append takeWhile_dropWhile_id)
qed

lemma ascending_dropWhile: "ascending h xs \<Longrightarrow> ascending h (dropWhile Q xs)"
proof -
  assume "ascending h xs"
  then have "ascending h (takeWhile Q xs @ dropWhile Q xs)" by simp
  then show ?thesis unfolding ascending_append by simp
qed

lemma ascending_takeWhile: "ascending h xs \<Longrightarrow> ascending h (takeWhile Q xs)"
proof -
  assume "ascending h xs"
  then have "ascending h (takeWhile Q xs @ dropWhile Q xs)" by simp
  then show ?thesis unfolding ascending_append by simp
qed

lemma set_takeWhile_asc:
  assumes "ascending h xs"
  shows "set (takeWhile (before h fin) xs) = {x \<in> set xs. before h fin x}"
proof (intro equalityI subsetI)
  fix x assume x: "x \<in> set (takeWhile (before h fin) xs)"
  then show "x \<in> {x \<in> set xs. before h fin x}" by (metis (mono_tags, lifting) mem_Collect_eq set_takeWhileD)
next
  fix x assume "x \<in> {x \<in> set xs. before h fin x}"
  then have x: "x \<in> set xs" "before h fin x" by simp_all
  show "x \<in> set (takeWhile (before h fin) xs)"
  proof (rule ccontr)
    assume n: "x \<notin> set (takeWhile (before h fin) xs)"
    then have xd: "x \<in> set (dropWhile (before h fin) xs)"
      using x(1) by (metis Un_iff set_append takeWhile_dropWhile_id)
    then obtain c cs where d: "dropWhile (before h fin) xs = c # cs"
      by (cases "dropWhile (before h fin) xs") auto
    have nc: "\<not> before h fin c" using d by (metis hd_dropWhile list.distinct(1) list.sel(1))
    then have "x \<noteq> c" using x(2) by auto
    then have xin: "x \<in> set cs" using xd d by simp
    have "ascending h (takeWhile (before h fin) xs @ c # cs)"
      using assms d by (metis takeWhile_dropWhile_id)
    then have lt: "bytes_Compare (key (h ! c)) (key (h ! x)) < 0"
      using xin by (simp add: ascending_append ascending_Cons)
    show False
    proof (cases fin)
      case None
      then show False using nc by (simp add: before_def)
    next
      case (Some e)
      then have "bytes_Compare (key (h ! x)) e < 0" using x(2) by (simp add: before_def)
      from bytes_Compare_trans [OF lt this] show False using nc Some by (simp add: before_def)
    qed
  qed
qed

lemma not_klt_iff: "\<not> klt h a x \<longleftrightarrow> bytes_Compare a (key (h ! x)) \<le> 0"
  using bytes_Compare_sym [of a "key (h ! x)"] by (auto simp: klt_def)

lemma set_scanned:
  assumes asc: "ascending h xs"
  shows "set (takeWhile (before h fin) (scan_from h start xs))
      = {x \<in> set xs. in_bounds start fin (key (h ! x))}"
proof -
  have a: "ascending h (scan_from h start xs)"
    using asc by (cases start) (simp_all add: scan_from_def ascending_dropWhile)
  have "set (scan_from h start xs)
      = {x \<in> set xs. case start of None \<Rightarrow> True | Some a \<Rightarrow> bytes_Compare a (key (h ! x)) \<le> 0}"
    using set_dropWhile_asc [OF asc] by (cases start) (simp_all add: scan_from_def not_klt_iff)
  then show ?thesis
    unfolding set_takeWhile_asc [OF a] by (auto simp: in_bounds_def before_def)
qed

lemma ascending_entries:
  "ascending h xs \<Longrightarrow> sorted_wrt (\<lambda>p q. bytes_Compare (fst p) (fst q) < 0) (sl_entries h xs)"
  by (simp add: ascending_def sl_entries_def sorted_wrt_map)

lemma entries_distinct_keys: "ascending h xs \<Longrightarrow> distinct (map fst (sl_entries h xs))"
proof (induction xs)
  case Nil
  then show ?case by simp
next
  case (Cons x xs)
  have "key (h ! x) \<noteq> key (h ! b)" if "b \<in> set xs" for b
    using Cons.prems that by (auto simp: ascending_Cons)
  then have "key (h ! x) \<notin> fst ` set (sl_entries h xs)" by (auto simp: sl_entries_keys)
  then show ?case using Cons by (simp add: ascending_Cons)
qed

lemma Scan_all_spec:
  assumes inv: "sl_inv s L"
  shows "\<exists>r. Scan_all s start fin = Inr r
     \<and> sorted_wrt (\<lambda>p q. bytes_Compare (fst p) (fst q) < 0) r
     \<and> set r = {(k, v). map_of (sl_entries (nodes s) (L 0)) k = Some v
                        \<and> in_bounds start (Scan_end fin) k}"
proof -
  define h where "h = nodes s"
  define R where "R = takeWhile (before h (Scan_end fin)) (scan_from h start (L 0))"
  have pos: "0 < MaxLevel s" using inv by (simp add: sl_inv_def)
  have asc: "ascending h (L 0)" using inv_lane(2) [OF inv pos] by (simp add: h_def)
  have run: "Scan_all s start fin = Inr (sl_entries h R)"
    using Scan_all_inv [OF inv, of start fin] by (simp add: h_def R_def)
  have ascR: "ascending h R"
    unfolding R_def using asc
    by (cases start) (simp_all add: scan_from_def ascending_takeWhile ascending_dropWhile)
  have setR: "set R = {x \<in> set (L 0). in_bounds start (Scan_end fin) (key (h ! x))}"
    unfolding R_def by (rule set_scanned [OF asc])
  have look: "map_of (sl_entries h (L 0)) k = Some v \<longleftrightarrow> (k, v) \<in> set (sl_entries h (L 0))" for k v
    using entries_distinct_keys [OF asc] by (simp add: map_of_eq_Some_iff)
  have "set (sl_entries h R)
      = {(k, v). map_of (sl_entries h (L 0)) k = Some v \<and> in_bounds start (Scan_end fin) k}"
    unfolding look using setR by (auto simp: sl_entries_def)
  with run ascending_entries [OF ascR] show ?thesis by (auto simp: h_def)
qed

lemma sl_apply_inv:
  assumes "sl_inv s L"
  shows "\<exists>L'. sl_inv (sl_apply s op) L'
     \<and> map_of (sl_entries (nodes (sl_apply s op)) (L' 0))
         = ref_apply (map_of (sl_entries (nodes s) (L 0))) op"
proof (cases op)
  case (DoPut k v)
  from SkipList_Put_inv [OF assms, of k v] show ?thesis unfolding DoPut by auto
next
  case (DoDelete k)
  from SkipList_Delete_inv [OF assms, of k] show ?thesis unfolding DoDelete by auto
qed

lemma foldl_sl_apply_inv:
  "sl_inv s L \<Longrightarrow>
   \<exists>L'. sl_inv (foldl sl_apply s ops) L'
     \<and> map_of (sl_entries (nodes (foldl sl_apply s ops)) (L' 0))
         = foldl ref_apply (map_of (sl_entries (nodes s) (L 0))) ops"
proof (induction ops arbitrary: s L)
  case Nil
  then show ?case by auto
next
  case (Cons op ops)
  from sl_apply_inv [OF Cons.prems, of op] obtain L1 where
    1: "sl_inv (sl_apply s op) L1"
    "map_of (sl_entries (nodes (sl_apply s op)) (L1 0))
         = ref_apply (map_of (sl_entries (nodes s) (L 0))) op" by blast
  from Cons.IH [OF 1(1)] 1(2) show ?case by simp
qed

lemma sl_run_inv:
  "\<exists>L. sl_inv (sl_run (skiplist_New coins) ops) L
     \<and> map_of (sl_entries (nodes (sl_run (skiplist_New coins) ops)) (L 0)) = ref_run ops"
proof -
  have "map_of (sl_entries (nodes (skiplist_New coins)) []) = Map.empty" by simp
  with foldl_sl_apply_inv [OF skiplist_New_inv, of coins ops]
  show ?thesis by (simp add: sl_run_def ref_run_def)
qed

subsection \<open>What a scan returns\<close>

text \<open>
  For every list reached from \<open>New\<close> by \<open>Put\<close> and \<open>Delete\<close> calls and for all bounds,
  \<open>Scan(start, end)\<close> followed by \<open>Next\<close> until \<open>ok = false\<close> returns, without error,
  pairs in strictly ascending order of their keys (so no key twice): the pairs of the keys
  \<open>k\<close> with \<open>start \<le> k\<close> that are before the end bound the iterator stores.  A nil start is
  no lower bound and a nil end is no upper bound.  The stored bound is the bound given,
  unless that is the empty slice.
\<close>

lemma Scan_all_sl_run:
  "\<exists>r. Scan_all (sl_run (skiplist_New coins) ops) start fin = Inr r
     \<and> sorted_wrt (\<lambda>p q. bytes_Compare (fst p) (fst q) < 0) r
     \<and> set r = {(k, v). ref_run ops k = Some v \<and> in_bounds start (Scan_end fin) k}"
proof -
  from sl_run_inv [of coins ops] obtain L where
    inv: "sl_inv (sl_run (skiplist_New coins) ops) L"
    and m: "map_of (sl_entries (nodes (sl_run (skiplist_New coins) ops)) (L 0)) = ref_run ops"
    by blast
  from Scan_all_spec [OF inv, of start fin] show ?thesis unfolding m .
qed

lemma Scan_end_same: "fin \<noteq> Some [] \<Longrightarrow> Scan_end fin = fin"
  by (cases fin) (simp_all add: Scan_end_def append_nil_def)

lemma Scan_end_empty: "Scan_end (Some []) = None"
  by (simp add: Scan_end_def append_nil_def)

lemma Scan_all_in_range:
  assumes "fin \<noteq> Some []"
  shows "\<exists>r. Scan_all (sl_run (skiplist_New coins) ops) start fin = Inr r
     \<and> sorted_wrt (\<lambda>p q. bytes_Compare (fst p) (fst q) < 0) r
     \<and> set r = {(k, v). ref_run ops k = Some v \<and> in_bounds start fin k}"
  using Scan_all_sl_run [of coins ops start fin] by (simp add: Scan_end_same [OF assms])

text \<open>
  Claim C8.  \<open>Scan(a, b)\<close> is to yield exactly the keys \<open>k\<close> with \<open>a \<le> k < b\<close>, a nil end
  alone being no upper bound.  The code does so for every end bound but one
  (\<open>Scan_all_in_range\<close>): an end bound that is the empty slice and not nil.  No key is
  before the empty key, so the scan has nothing to yield; but the copy \<open>Scan\<close> makes of the
  bound, \<open>append([]byte(nil), end...)\<close>, is nil for it, and the iterator runs to the end of
  the list.  After \<open>Put(a, 1)\<close> and \<open>Put(b, 2)\<close>, \<open>Scan(a, []byte{})\<close> yields both pairs,
  and neither key is within the bounds.
\<close>

theorem skiplist_scan_empty_end:
  "Scan_all (sl_run (skiplist_New (\<lambda>n. False)) [DoPut [97 :: byte] [49 :: byte], DoPut [98] [50]])
       (Some [97]) (Some [])
     = Inr [([97], [49]), ([98], [50])]
   \<and> \<not> in_bounds (Some [97 :: byte]) (Some []) [97]
   \<and> \<not> in_bounds (Some [97 :: byte]) (Some []) [98]"
  by code_simp

section \<open>The engine\<close>

subsection \<open>Replay\<close>

lemma apply_record_op: "apply_record m rec = sl_apply m (record_op rec)"
  by (simp add: apply_record_def record_op_def)

lemma replay_read_all: "replay bs m = foldl apply_record m (fst (read_all bs))"
proof (induction bs arbitrary: m rule: length_induct)
  case (1 bs)
  obtain rec ok e rest where nx: "Reader_Next bs = ((rec, ok, e), rest)"
    by (metis prod_cases3 surj_pair)
  show ?case
  proof (cases ok)
    case False
    then show ?thesis using nx
      by (subst replay.simps, subst read_all.simps) simp
  next
    case True
    then have "Reader_Next bs = ((rec, True, e), rest)" using nx by simp
    then have "length rest < length bs" by (rule Reader_Next_shorter)
    with 1 have ih: "replay rest (apply_record m rec)
        = foldl apply_record (apply_record m rec) (fst (read_all rest))" by blast
    show ?thesis using nx True ih
      by (subst replay.simps, subst read_all.simps) (simp split: prod.splits)
  qed
qed

lemma replay_sl_run:
  "replay bs (skiplist_New c) = sl_run (skiplist_New c) (map record_op (fst (read_all bs)))"
proof -
  have "foldl apply_record m rs = foldl sl_apply m (map record_op rs)" for m rs
    by (induction rs arbitrary: m) (simp_all add: apply_record_op)
  then show ?thesis by (simp add: replay_read_all sl_run_def)
qed

lemma SkipList_Get_run:
  "SkipList_Get (sl_run (skiplist_New c) ops) k = lookup (ref_run ops) k"
proof -
  from sl_run_inv [of c ops] obtain L where
    inv: "sl_inv (sl_run (skiplist_New c) ops) L"
    and m: "map_of (sl_entries (nodes (sl_run (skiplist_New c) ops)) (L 0)) = ref_run ops"
    by blast
  show ?thesis using SkipList_Get_inv [OF inv, of k] by (simp add: m lookup_def)
qed

lemma SkipList_Get_New: "SkipList_Get (skiplist_New c) k = Inl ErrNotFound"
  using SkipList_Get_run [of c "[]" k] by (simp add: sl_run_def ref_run_def lookup_def)

lemma Engine_Open_replay:
  assumes "\<not> open_fails d" and "\<not> read_fails d"
  shows "\<exists>e d'. Engine_Open env opts d = (Inr e, d')
          \<and> memtable e = sl_run (skiplist_New (seed1 env)) (map record_op (wal_records d))
          \<and> (\<forall>k. Engine_Get e k = lookup (ref_run (map record_op (wal_records d))) k)
          \<and> wal_log d' \<noteq> None
          \<and> (wal_log d = None \<longrightarrow> (\<forall>k. Engine_Get e k = Inl ErrNotFound))"
proof -
  define m where "m = sl_run (skiplist_New (seed1 env)) (map record_op (wal_records d))"
  have mt: "(case wal_log d of None \<Rightarrow> skiplist_New (seed1 env)
            | Some f \<Rightarrow> if read_fails d then skiplist_New (seed1 env)
                        else replay (data f) (skiplist_New (seed1 env))) = m"
    using assms(2)
    by (cases "wal_log d") (simp_all add: m_def wal_records_def replay_sl_run sl_run_def)
  obtain e d' where op: "Engine_Open env opts d = (Inr e, d')" and me: "memtable e = m"
    and wl: "wal_log d' \<noteq> None"
    using assms(1) mt by (cases "wal_log d") (simp_all add: Engine_Open_def Let_def)
  have get: "Engine_Get e k = lookup (ref_run (map record_op (wal_records d))) k" for k
    by (simp add: Engine_Get_def me m_def SkipList_Get_run)
  have "Engine_Get e k = Inl ErrNotFound" if "wal_log d = None" for k
    using get [of k] that by (simp add: wal_records_def ref_run_def lookup_def)
  with op me get wl show ?thesis unfolding m_def by blast
qed

lemma Engine_Open_fresh:
  "\<not> open_fails d \<Longrightarrow> wal_log d = None \<Longrightarrow>
   Engine_Open env opts d =
     (Inr \<lparr> options = opts, memtable = skiplist_New (seed1 env), wal = NewWriter,
            sstCount = 0, memSize = 0 \<rparr>,
      d\<lparr>wal_log := Some \<lparr> data = [], room = create_room d \<rparr>\<rparr>)"
  by (simp add: Engine_Open_def Let_def)

subsection \<open>Writes that do not flush\<close>

lemma wal_Append_clean:
  assumes "wal_clean e d"
  shows "wal_Append d (wal e) rec
     = (None, wal e, d\<lparr>wal_log := Some ((the (wal_log d))\<lparr>data := data (the (wal_log d)) @ wal_bytes rec\<rparr>)\<rparr>)"
proof -
  from assms obtain f where f: "wal_log d = Some f" "room f = None"
    and w: "pending (wal e) = []" "werr (wal e) = None"
    by (auto simp: wal_clean_def split: option.splits)
  show ?thesis using Writer_Append_ok [OF w f(2), of rec] f(1) by (simp add: wal_Append_def)
qed

lemma engine_apply_noflush:
  assumes c: "wal_clean e d" and thr: "MemtableFlushThreshold (options e) \<le> 0"
    and st: "engine_apply env (e, d) op = (e', d')"
  shows "wal_clean e' d'" and "MemtableFlushThreshold (options e') \<le> 0"
    and "memtable e' = sl_apply (memtable e) op"
    and "data (the (wal_log d')) = data (the (wal_log d)) @ wal_bytes (op_record op)"
    and "open_fails d' = open_fails d" and "read_fails d' = read_fails d"
proof -
  from c obtain f where f: "wal_log d = Some f" "room f = None"
    by (auto simp: wal_clean_def split: option.splits)
  have all: "wal_clean e' d' \<and> MemtableFlushThreshold (options e') \<le> 0
    \<and> memtable e' = sl_apply (memtable e) op
    \<and> data (the (wal_log d')) = data (the (wal_log d)) @ wal_bytes (op_record op)
    \<and> open_fails d' = open_fails d \<and> read_fails d' = read_fails d"
  proof (cases op)
    case (DoPut k v)
    show ?thesis
      using st thr c f wal_Append_clean [OF c, of "\<lparr> Type = OpPut, Key = k, Value = v \<rparr>"]
      unfolding DoPut
      by (auto simp: Engine_Put_def Let_def wal_clean_def split: prod.splits)
  next
    case (DoDelete k)
    show ?thesis
      using st thr c f wal_Append_clean [OF c, of "\<lparr> Type = OpDelete, Key = k, Value = [] \<rparr>"]
      unfolding DoDelete
      by (auto simp: Engine_Delete_def wal_clean_def split: prod.splits)
  qed
  then show "wal_clean e' d'" and "MemtableFlushThreshold (options e') \<le> 0"
    and "memtable e' = sl_apply (memtable e) op"
    and "data (the (wal_log d')) = data (the (wal_log d)) @ wal_bytes (op_record op)"
    and "open_fails d' = open_fails d" and "read_fails d' = read_fails d" by simp_all
qed

lemma engine_run_noflush:
  "wal_clean e d \<Longrightarrow> MemtableFlushThreshold (options e) \<le> 0 \<Longrightarrow>
   engine_run env (e, d) ops = (e', d') \<Longrightarrow>
   wal_clean e' d' \<and> memtable e' = foldl sl_apply (memtable e) ops
   \<and> data (the (wal_log d')) = data (the (wal_log d)) @ concat (map (\<lambda>op. wal_bytes (op_record op)) ops)
   \<and> open_fails d' = open_fails d \<and> read_fails d' = read_fails d"
proof (induction ops arbitrary: e d)
  case Nil
  then show ?case by (simp add: engine_run_def)
next
  case (Cons op ops)
  obtain e1 d1 where st: "engine_apply env (e, d) op = (e1, d1)"
    by (cases "engine_apply env (e, d) op")
  note s = engine_apply_noflush [OF Cons.prems(1,2) st]
  have run: "engine_run env (e1, d1) ops = (e', d')"
    using Cons.prems(3) st by (simp add: engine_run_def)
  from Cons.IH [OF s(1,2) run] s(3,4,5,6) show ?case by simp
qed

lemma record_op_canon: "record_op (wal_canon (op_record op)) = op"
  by (cases op) (simp_all add: record_op_def wal_canon_def OpPut_def OpDelete_def)

lemma engine_crash_recovery:
  assumes fits: "\<forall>op \<in> set ops. wal_fits (op_record op)"
    and thr: "MemtableFlushThreshold opts \<le> 0"
    and opn: "Engine_Open env opts disk_empty = (Inr e0, d0)"
    and run: "engine_run env (e0, d0) ops = (e1, d1)"
  shows "\<exists>e2 d2. Engine_Open env opts d1 = (Inr e2, d2) \<and> memtable e2 = memtable e1
           \<and> (\<forall>k. Engine_Get e2 k = lookup (ref_run ops) k)"
proof -
  have e0: "e0 = \<lparr> options = opts, memtable = skiplist_New (seed1 env), wal = NewWriter,
      sstCount = 0, memSize = 0 \<rparr>"
    and d0: "d0 = disk_empty\<lparr>wal_log := Some \<lparr> data = [], room = None \<rparr>\<rparr>"
    using opn by (simp_all add: Engine_Open_def disk_empty_def Let_def)
  have c0: "wal_clean e0 d0" by (simp add: e0 d0 wal_clean_def NewWriter_def)
  have t0: "MemtableFlushThreshold (options e0) \<le> 0" using thr by (simp add: e0)
  from engine_run_noflush [OF c0 t0 run]
  have c1: "wal_clean e1 d1" and m1: "memtable e1 = sl_run (skiplist_New (seed1 env)) ops"
    and w1: "data (the (wal_log d1)) = concat (map wal_bytes (map op_record ops))"
    and o1: "\<not> open_fails d1" and r1: "\<not> read_fails d1"
    by (simp_all add: e0 d0 sl_run_def disk_empty_def comp_def)
  from c1 obtain f where f: "wal_log d1 = Some f"
    by (auto simp: wal_clean_def split: option.splits)
  have "read_all (data f) = (map wal_canon (map op_record ops), None)"
    using read_all_concat [of "map op_record ops" "[]"] fits w1 f by (simp add: read_all_Nil)
  then have recs: "map record_op (wal_records d1) = ops"
    using f by (simp add: wal_records_def comp_def record_op_canon)
  from Engine_Open_replay [OF o1 r1, of env opts] show ?thesis
    unfolding recs m1 by blast
qed

subsection \<open>Open\<close>

text \<open>
  Claim C4.  On every directory whose log can be opened (for reading when there is one,
  and for appending), whatever bytes the log holds, \<open>Open\<close> returns an engine whose
  memtable is a fresh list to which the records the reader yields were applied in the
  order of the file, a Put record by \<open>Put\<close> and every other record by \<open>Delete\<close>; so
  \<open>Get\<close> answers each key with the value of its last Put record unless a Delete record
  follows it, and with not found otherwise.  The log is open for the writes that follow.  A
  directory without a log is no error: the memtable is empty and the log is created.
  The scenario of the claim, for any operations in place of its four: an engine opened
  on an empty directory with no flush threshold takes any \<open>Put\<close> and \<open>Delete\<close> calls (keys
  and values shorter than \<open>2^32\<close> bytes) and is left without a flush (so without a call of
  \<open>Close\<close>, which flushes); \<open>Open\<close> on the directory it leaves returns an engine with the
  same memtable, whose \<open>Get\<close> answers with the net effect of the calls.
\<close>

theorem engine_open_replays:
  "(\<not> open_fails d \<longrightarrow> \<not> read_fails d \<longrightarrow>
      (\<exists>e d'. Engine_Open env opts d = (Inr e, d')
          \<and> memtable e = sl_run (skiplist_New (seed1 env)) (map record_op (wal_records d))
          \<and> (\<forall>k. Engine_Get e k = lookup (ref_run (map record_op (wal_records d))) k)
          \<and> wal_log d' \<noteq> None
          \<and> (wal_log d = None \<longrightarrow> (\<forall>k. Engine_Get e k = Inl ErrNotFound))))
   \<and> ((\<forall>op \<in> set ops. wal_fits (op_record op)) \<longrightarrow> MemtableFlushThreshold opts \<le> 0 \<longrightarrow>
        Engine_Open env opts disk_empty = (Inr e0, d0) \<longrightarrow>
        engine_run env (e0, d0) ops = (e1, d1) \<longrightarrow>
        (\<exists>e2 d2. Engine_Open env opts d1 = (Inr e2, d2) \<and> memtable e2 = memtable e1
           \<and> (\<forall>k. Engine_Get e2 k = lookup (ref_run ops) k)))"
proof (intro conjI impI)
  assume "\<not> open_fails d" "\<not> read_fails d"
  from Engine_Open_replay [OF this, of env opts]
  show "\<exists>e d'. Engine_Open env opts d = (Inr e, d')
          \<and> memtable e = sl_run (skiplist_New (seed1 env)) (map record_op (wal_records d))
          \<and> (\<forall>k. Engine_Get e k = lookup (ref_run (map record_op (wal_records d))) k)
          \<and> wal_log d' \<noteq> None
          \<and> (wal_log d = None \<longrightarrow> (\<forall>k. Engine_Get e k = Inl ErrNotFound))" .
next
  assume "\<forall>op \<in> set ops. wal_fits (op_record op)" "MemtableFlushThreshold opts \<le> 0"
    "Engine_Open env opts disk_empty = (Inr e0, d0)" "engine_run env (e0, d0) ops = (e1, d1)"
  then show "\<exists>e2 d2. Engine_Open env opts d1 = (Inr e2, d2) \<and> memtable e2 = memtable e1
           \<and> (\<forall>k. Engine_Get e2 k = lookup (ref_run ops) k)"
    by (rule engine_crash_recovery)
qed

text \<open>
  The scenario itself: three Puts and a Delete, the engine left as it is, and \<open>Open\<close>
  again.  The log that is replayed holds the four records.
\<close>

theorem engine_open_replays_witness:
  "\<exists>e0 d0 e1 d1 e2 d2.
      Engine_Open env0 \<lparr> Dir = ''db'', MemtableFlushThreshold = 0 \<rparr> disk_empty = (Inr e0, d0)
    \<and> engine_run env0 (e0, d0)
        [DoPut [97] [49], DoPut [98] [50], DoPut [99] [51], DoDelete [98]] = (e1, d1)
    \<and> \<not> open_fails d1 \<and> \<not> read_fails d1
    \<and> map record_op (wal_records d1)
        = [DoPut [97] [49], DoPut [98] [50], DoPut [99] [51], DoDelete [98]]
    \<and> Engine_Open env0 \<lparr> Dir = ''db'', MemtableFlushThreshold = 0 \<rparr> d1 = (Inr e2, d2)
    \<and> memtable e2 = memtable e1
    \<and> Engine_Get e2 [97] = Inr [49] \<and> Engine_Get e2 [98] = Inl ErrNotFound
    \<and> Engine_Get e2 [99] = Inr [51]"
proof -
  define opts where "opts = \<lparr> Dir = ''db'', MemtableFlushThreshold = 0 \<rparr>"
  define ops where "ops = [DoPut [97] [49], DoPut [98] [50], DoPut [99] [51], DoDelete [98]]"
  define E0 where "E0 = \<lparr> options = opts, memtable = skiplist_New (seed1 env0),
    wal = NewWriter, sstCount = 0, memSize = 0 \<rparr>"
  define D0 where "D0 = disk_empty\<lparr>wal_log := Some \<lparr> data = [], room = create_room disk_empty \<rparr>\<rparr>"
  define E1 where "E1 = fst (engine_run env0 (E0, D0) ops)"
  define D1 where "D1 = snd (engine_run env0 (E0, D0) ops)"
  have o: "Engine_Open env0 opts disk_empty = (Inr E0, D0)"
    unfolding E0_def D0_def by (rule Engine_Open_fresh) (simp_all add: disk_empty_def)
  have r: "engine_run env0 (E0, D0) ops = (E1, D1)" by (simp add: E1_def D1_def)
  have fits: "\<forall>op \<in> set ops. wal_fits (op_record op)" by (simp add: ops_def wal_fits_def)
  have thr: "MemtableFlushThreshold opts \<le> 0" by (simp add: opts_def)
  have f1: "\<not> open_fails D1" "\<not> read_fails D1"
    unfolding D1_def E0_def D0_def ops_def opts_def by code_simp+
  have recs: "map record_op (wal_records D1) = ops"
    unfolding D1_def E0_def D0_def ops_def opts_def by code_simp
  note th = engine_open_replays [of D1 env0 opts ops E0 D0 E1 D1]
  from th f1 obtain e2 d2 where 2: "Engine_Open env0 opts D1 = (Inr e2, d2)"
    "\<forall>k. Engine_Get e2 k = lookup (ref_run (map record_op (wal_records D1))) k" by blast
  from th fits thr o r obtain e3 d3 where 3: "Engine_Open env0 opts D1 = (Inr e3, d3)"
    "memtable e3 = memtable E1" by blast
  have m: "memtable e2 = memtable E1" using 2(1) 3 by simp
  have "Engine_Get e2 [97] = Inr [49]" "Engine_Get e2 [98] = Inl ErrNotFound"
    "Engine_Get e2 [99] = Inr [51]"
    using 2(2) unfolding recs by (simp_all add: lookup_def ref_run_def ops_def)
  with o r f1 recs 2(1) m show ?thesis
    unfolding opts_def ops_def
    by (intro exI [of _ E0] exI [of _ D0] exI [of _ E1] exI [of _ D1] exI [of _ e2]
        exI [of _ d2]) simp
qed

subsection \<open>Get\<close>

lemma Engine_Flush_cases:
  assumes "Engine_Flush env d e = (r, e', d')"
  shows "(\<exists>err f'. tableWriter env (fst (os_Create d (sstCount e + 1))) (memtable e) = (Some err, f')
            \<and> r = Some err \<and> memtable e' = memtable e \<and> wal_log d' = wal_log d)
       \<or> (\<exists>f'. tableWriter env (fst (os_Create d (sstCount e + 1))) (memtable e) = (None, f')
            \<and> memtable e' = skiplist_New (seed1 env)
            \<and> (r, d') = wal_Truncate (store_table (snd (os_Create d (sstCount e + 1))) (sstCount e + 1) f'))"
proof -
  obtain f d1 where c: "os_Create d (sstCount e + 1) = (f, d1)" by (cases "os_Create d (sstCount e + 1)")
  have w1: "wal_log d1 = wal_log d" using c by (auto simp: os_Create_def split: if_splits)
  have st: "wal_log (store_table d1 n g) = wal_log d1" for n g
    by (cases g) (simp_all add: store_table_def)
  obtain we f' where w: "tableWriter env f (memtable e) = (we, f')"
    by (cases "tableWriter env f (memtable e)")
  show ?thesis
  proof (cases we)
    case None
    then show ?thesis using assms c w
      by (auto simp: Engine_Flush_def Let_def split: prod.splits)
  next
    case (Some err)
    then show ?thesis using assms c w w1 st
      by (auto simp: Engine_Flush_def Let_def split: prod.splits)
  qed
qed

text \<open>
  Claim C1, amended.  \<open>Get\<close> is answered by the memtable alone: for a memtable reached
  from \<open>New\<close> by \<open>Put\<close> and \<open>Delete\<close> calls it returns the value the calls leave for the
  key, and not found when they leave none.  No table is read and no bloom filter asked:
  the engine holds neither (its fields are the options, the memtable, the log and two
  counters), and \<open>Get\<close> reads nothing of the directory.  So what a flush has written is
  not found: after a \<open>Flush\<close> that returns no error, \<open>Get\<close> returns not found for every
  key.
\<close>

theorem engine_get_memtable_only:
  "(memtable e = sl_run (skiplist_New c) ops \<longrightarrow> Engine_Get e k = lookup (ref_run ops) k)
   \<and> (Engine_Flush env d e = (None, e', d') \<longrightarrow> Engine_Get e' k = Inl ErrNotFound)"
proof (intro conjI impI)
  assume "memtable e = sl_run (skiplist_New c) ops"
  then show "Engine_Get e k = lookup (ref_run ops) k"
    by (simp add: Engine_Get_def SkipList_Get_run)
next
  assume "Engine_Flush env d e = (None, e', d')"
  from Engine_Flush_cases [OF this] have "memtable e' = skiplist_New (seed1 env)" by auto
  then show "Engine_Get e' k = Inl ErrNotFound" by (simp add: Engine_Get_def SkipList_Get_New)
qed

theorem engine_get_memtable_only_witness:
  "\<exists>e0 d0 e d e' d'.
      Engine_Open env0 \<lparr> Dir = ''db'', MemtableFlushThreshold = 0 \<rparr> disk_empty = (Inr e0, d0)
    \<and> engine_run env0 (e0, d0) [DoPut [97] [49]] = (e, d)
    \<and> memtable e = sl_run (skiplist_New (seed1 env0)) [DoPut [97] [49]]
    \<and> Engine_Get e [97] = Inr [49]
    \<and> Engine_Flush env0 d e = (None, e', d')
    \<and> Engine_Get e' [97] = Inl ErrNotFound"
proof -
  define E0 where "E0 = \<lparr> options = \<lparr> Dir = ''db'', MemtableFlushThreshold = 0 \<rparr>,
    memtable = skiplist_New (seed1 env0), wal = NewWriter, sstCount = 0, memSize = 0 \<rparr>"
  define D0 where "D0 = disk_empty\<lparr>wal_log := Some \<lparr> data = [], room = create_room disk_empty \<rparr>\<rparr>"
  define E where "E = fst (engine_run env0 (E0, D0) [DoPut [97] [49]])"
  define D where "D = snd (engine_run env0 (E0, D0) [DoPut [97] [49]])"
  have o: "Engine_Open env0 \<lparr> Dir = ''db'', MemtableFlushThreshold = 0 \<rparr> disk_empty = (Inr E0, D0)"
    unfolding E0_def D0_def by (rule Engine_Open_fresh) (simp_all add: disk_empty_def)
  have r: "engine_run env0 (E0, D0) [DoPut [97] [49]] = (E, D)" by (simp add: E_def D_def)
  have c0: "wal_clean E0 D0"
    by (simp add: E0_def D0_def wal_clean_def NewWriter_def disk_empty_def)
  have m: "memtable E = sl_run (skiplist_New (seed1 env0)) [DoPut [97] [49]]"
    using engine_run_noflush [OF c0 _ r] by (simp add: E0_def sl_run_def)
  have f: "fst (Engine_Flush env0 D E) = None"
    unfolding E_def D_def E0_def D0_def by code_simp
  obtain E' D' where fl: "Engine_Flush env0 D E = (None, E', D')"
    using f by (cases "Engine_Flush env0 D E") auto
  note th = engine_get_memtable_only [of E "seed1 env0" "[DoPut [97] [49]]" "[97]" env0 D E' D']
  have g1: "Engine_Get E [97] = Inr [49]"
    using th m by (simp add: lookup_def ref_run_def)
  have g2: "Engine_Get E' [97] = Inl ErrNotFound" using th fl by simp
  from o r m g1 fl g2 show ?thesis by blast
qed

text \<open>
  The claim as it stands fails on its own scenario.  With a threshold of six
  bytes the third of \<open>Put(a, 1)\<close>, \<open>Put(b, 2)\<close>, \<open>Put(c, 3)\<close> flushes: table 1 holds the three
  pairs and the log is empty; \<open>Get(a)\<close> then returns not found, not \<open>1\<close>.
\<close>

theorem engine_get_memtable_only_counterexample:
  "\<exists>e0 d0 e d.
      Engine_Open env0 \<lparr> Dir = ''db'', MemtableFlushThreshold = 6 \<rparr> disk_empty = (Inr e0, d0)
    \<and> engine_run env0 (e0, d0) [DoPut [97] [49], DoPut [98] [50], DoPut [99] [51]] = (e, d)
    \<and> tables d 1 = Some (block_enc [([97], [49]), ([98], [50]), ([99], [51])])
    \<and> wal_log d = Some \<lparr> data = [], room = None \<rparr>
    \<and> Engine_Get e [97] = Inl ErrNotFound"
proof -
  define E0 where "E0 = \<lparr> options = \<lparr> Dir = ''db'', MemtableFlushThreshold = 6 \<rparr>,
    memtable = skiplist_New (seed1 env0), wal = NewWriter, sstCount = 0, memSize = 0 \<rparr>"
  define D0 where "D0 = disk_empty\<lparr>wal_log := Some \<lparr> data = [], room = create_room disk_empty \<rparr>\<rparr>"
  define ops where "ops = [DoPut [97] [49], DoPut [98] [50], DoPut [99] [51]]"
  have o: "Engine_Open env0 \<lparr> Dir = ''db'', MemtableFlushThreshold = 6 \<rparr> disk_empty = (Inr E0, D0)"
    unfolding E0_def D0_def by (rule Engine_Open_fresh) (simp_all add: disk_empty_def)
  have t: "tables (snd (engine_run env0 (E0, D0) ops)) 1
      = Some (block_enc [([97], [49]), ([98], [50]), ([99], [51])])"
    unfolding E0_def D0_def ops_def by code_simp
  have w: "wal_log (snd (engine_run env0 (E0, D0) ops)) = Some \<lparr> data = [], room = None \<rparr>"
    unfolding E0_def D0_def ops_def by code_simp
  have g: "Engine_Get (fst (engine_run env0 (E0, D0) ops)) [97] = Inl ErrNotFound"
    unfolding E0_def D0_def ops_def by code_simp
  show ?thesis
    using o t w g unfolding ops_def
    by (intro exI [of _ E0] exI [of _ D0] exI [of _ "fst (engine_run env0 (E0, D0) ops)"]
        exI [of _ "snd (engine_run env0 (E0, D0) ops)"]) (simp add: ops_def)
qed

subsection \<open>Put and Delete\<close>

text \<open>
  Claim C2.  \<open>Put\<close> and \<open>Delete\<close> are to return the failure of the log and leave the
  memtable as it is when the record cannot be appended.  The code drops the error of
  \<open>Append\<close> (\<open>_ = e.wal.Append(...)\<close>) and goes on.  On a log that accepts no more bytes:
  \<open>Append\<close> of the Put record fails, \<open>Put(a, 1)\<close> returns no error, the log is as it was,
  and \<open>Get(a)\<close>, not found before, returns \<open>1\<close>; then \<open>Append\<close> of the Delete record fails,
  \<open>Delete(a)\<close> returns no error, the log is as it was, and \<open>Get(a)\<close> returns not found.
\<close>

theorem engine_put_ignores_wal_failure:
  "\<exists>e0 d0 e1 d1 e2 d2.
      Engine_Open env0 \<lparr> Dir = ''db'', MemtableFlushThreshold = 0 \<rparr>
        (disk_empty\<lparr>wal_log := Some \<lparr> data = [], room = Some 0 \<rparr>\<rparr>) = (Inr e0, d0)
    \<and> fst (wal_Append d0 (wal e0) \<lparr> Type = OpPut, Key = [97], Value = [49] \<rparr>) = Some ErrIO
    \<and> Engine_Put env0 d0 e0 [97] [49] = (None, e1, d1)
    \<and> wal_log d1 = Some \<lparr> data = [], room = Some 0 \<rparr>
    \<and> Engine_Get e0 [97] = Inl ErrNotFound
    \<and> Engine_Get e1 [97] = Inr [49]
    \<and> fst (wal_Append d1 (wal e1) \<lparr> Type = OpDelete, Key = [97], Value = [] \<rparr>) = Some ErrIO
    \<and> Engine_Delete env0 d1 e1 [97] = (None, e2, d2)
    \<and> wal_log d2 = Some \<lparr> data = [], room = Some 0 \<rparr>
    \<and> Engine_Get e2 [97] = Inl ErrNotFound"
proof -
  define E0 where "E0 = \<lparr> options = \<lparr> Dir = ''db'', MemtableFlushThreshold = 0 \<rparr>,
    memtable = skiplist_New (seed1 env0), wal = NewWriter, sstCount = 0, memSize = 0 \<rparr>"
  define D0 where "D0 = disk_empty\<lparr>wal_log := Some \<lparr> data = [], room = Some 0 \<rparr>\<rparr>"
  define P where "P = Engine_Put env0 D0 E0 [97] [49]"
  define Q where "Q = Engine_Delete env0 (snd (snd P)) (fst (snd P)) [97]"
  have o: "Engine_Open env0 \<lparr> Dir = ''db'', MemtableFlushThreshold = 0 \<rparr>
        (disk_empty\<lparr>wal_log := Some \<lparr> data = [], room = Some 0 \<rparr>\<rparr>) = (Inr E0, D0)"
    unfolding E0_def D0_def
    by (simp add: Engine_Open_def Let_def disk_empty_def replay.simps Reader_Next_def ReadByte_def)
  have a1: "fst (wal_Append D0 (wal E0) \<lparr> Type = OpPut, Key = [97], Value = [49] \<rparr>) = Some ErrIO"
    unfolding E0_def D0_def by code_simp
  have p1: "fst P = None" unfolding P_def E0_def D0_def by code_simp
  have p2: "wal_log (snd (snd P)) = Some \<lparr> data = [], room = Some 0 \<rparr>"
    unfolding P_def E0_def D0_def by code_simp
  have g0: "Engine_Get E0 [97] = Inl ErrNotFound" unfolding E0_def by code_simp
  have g1: "Engine_Get (fst (snd P)) [97] = Inr [49]" unfolding P_def E0_def D0_def by code_simp
  have a2: "fst (wal_Append (snd (snd P)) (wal (fst (snd P)))
      \<lparr> Type = OpDelete, Key = [97], Value = [] \<rparr>) = Some ErrIO"
    unfolding P_def E0_def D0_def by code_simp
  have q1: "fst Q = None" unfolding Q_def P_def E0_def D0_def by code_simp
  have q2: "wal_log (snd (snd Q)) = Some \<lparr> data = [], room = Some 0 \<rparr>"
    unfolding Q_def P_def E0_def D0_def by code_simp
  have g2: "Engine_Get (fst (snd Q)) [97] = Inl ErrNotFound"
    unfolding Q_def P_def E0_def D0_def by code_simp
  have P: "Engine_Put env0 D0 E0 [97] [49] = (None, fst (snd P), snd (snd P))"
    using p1 by (simp add: P_def [symmetric] prod_eq_iff)
  have Q: "Engine_Delete env0 (snd (snd P)) (fst (snd P)) [97] = (None, fst (snd Q), snd (snd Q))"
    using q1 by (simp add: Q_def [symmetric] prod_eq_iff)
  from o a1 P p2 g0 g1 a2 Q q2 g2 show ?thesis by blast
qed

subsection \<open>Flush\<close>

text \<open>
  Claim C3, amended.  \<open>Flush\<close> counts the table, creates its file and hands the file
  and the memtable to the table writer; what follows depends on the writer's answer
  alone.  When the writer returns an error, \<open>Flush\<close> returns that error, the memtable
  keeps its content and the log is not touched.  When the writer returns none, the
  memtable is replaced by an empty one, the directory holds what the writer left in the
  file, and \<open>Flush\<close> returns what truncating the log returns: on success the log is
  empty; on failure the log is as it was, while the memtable is already replaced.
  Truncation succeeds whenever the log is there and the file system does not refuse.
  The theorem holds for every table writer.
\<close>

theorem engine_flush_outcomes:
  assumes "Engine_Flush env d e = (r, e', d')"
    and "tableWriter env (fst (os_Create d (sstCount e + 1))) (memtable e) = (we, f')"
  shows "(we \<noteq> None \<longrightarrow> r = we \<and> memtable e' = memtable e \<and> wal_log d' = wal_log d)
       \<and> (we = None \<longrightarrow>
            memtable e' = skiplist_New (seed1 env)
            \<and> (f' \<noteq> None \<longrightarrow> tables d' (sstCount e + 1) = Some (content (the f')))
            \<and> (r = None \<longrightarrow> (\<exists>w. wal_log d' = Some w \<and> data w = []))
            \<and> (r \<noteq> None \<longrightarrow> wal_log d' = wal_log d)
            \<and> (wal_log d \<noteq> None \<and> \<not> truncate_fails d \<longrightarrow> r = None))"
proof -
  obtain f d1 where c: "os_Create d (sstCount e + 1) = (f, d1)"
    by (cases "os_Create d (sstCount e + 1)")
  have d1: "wal_log d1 = wal_log d" "truncate_fails d1 = truncate_fails d"
    using c by (auto simp: os_Create_def split: if_splits)
  define d2 where "d2 = store_table d1 (sstCount e + 1) f'"
  have d2: "wal_log d2 = wal_log d" "truncate_fails d2 = truncate_fails d"
    "f' \<noteq> None \<longrightarrow> tables d2 (sstCount e + 1) = Some (content (the f'))"
    using d1 by (cases f'; simp add: d2_def store_table_def)+
  show ?thesis
  proof (cases we)
    case (Some err)
    then show ?thesis
      using assms c d1 d2 by (auto simp: Engine_Flush_def Let_def d2_def)
  next
    case None
    have fl: "(r, e', d') = (fst (wal_Truncate d2), e\<lparr>sstCount := sstCount e + 1,
        memtable := skiplist_New (seed1 env)\<rparr>, snd (wal_Truncate d2))"
      using assms c None by (simp add: Engine_Flush_def Let_def d2_def split: prod.splits)
    have tr: "(fst (wal_Truncate d2) = None \<longrightarrow>
          (\<exists>w. wal_log (snd (wal_Truncate d2)) = Some w \<and> data w = []))
        \<and> (fst (wal_Truncate d2) \<noteq> None \<longrightarrow> wal_log (snd (wal_Truncate d2)) = wal_log d)
        \<and> tables (snd (wal_Truncate d2)) = tables d2
        \<and> (wal_log d \<noteq> None \<and> \<not> truncate_fails d \<longrightarrow> fst (wal_Truncate d2) = None)"
      using d2(1,2) by (auto simp: wal_Truncate_def split: option.splits)
    show ?thesis using None fl tr d2(3) by auto
  qed
qed

theorem engine_flush_outcomes_witness:
  "\<exists>e0 d0 e d e' d' f'.
      Engine_Open env0 \<lparr> Dir = ''db'', MemtableFlushThreshold = 0 \<rparr> disk_empty = (Inr e0, d0)
    \<and> engine_run env0 (e0, d0) [DoPut [97] [49]] = (e, d)
    \<and> tableWriter env0 (fst (os_Create d (sstCount e + 1))) (memtable e) = (None, f')
    \<and> Engine_Flush env0 d e = (None, e', d')
    \<and> memtable e' = skiplist_New (seed1 env0)
    \<and> tables d' 1 = Some (block_enc [([97], [49])])
    \<and> (\<exists>w. wal_log d' = Some w \<and> data w = [])"
proof -
  define E0 where "E0 = \<lparr> options = \<lparr> Dir = ''db'', MemtableFlushThreshold = 0 \<rparr>,
    memtable = skiplist_New (seed1 env0), wal = NewWriter, sstCount = 0, memSize = 0 \<rparr>"
  define D0 where "D0 = disk_empty\<lparr>wal_log := Some \<lparr> data = [], room = create_room disk_empty \<rparr>\<rparr>"
  define E where "E = fst (engine_run env0 (E0, D0) [DoPut [97] [49]])"
  define D where "D = snd (engine_run env0 (E0, D0) [DoPut [97] [49]])"
  define W where "W = tableWriter env0 (fst (os_Create D (sstCount E + 1))) (memtable E)"
  have o: "Engine_Open env0 \<lparr> Dir = ''db'', MemtableFlushThreshold = 0 \<rparr> disk_empty = (Inr E0, D0)"
    unfolding E0_def D0_def by (rule Engine_Open_fresh) (simp_all add: disk_empty_def)
  have r: "engine_run env0 (E0, D0) [DoPut [97] [49]] = (E, D)" by (simp add: E_def D_def)
  have w1: "fst W = None" unfolding W_def E_def D_def E0_def D0_def by code_simp
  have w2: "snd W \<noteq> None" unfolding W_def E_def D_def E0_def D0_def by code_simp
  have w3: "content (the (snd W)) = block_enc [([97], [49])]"
    unfolding W_def E_def D_def E0_def D0_def by code_simp
  have sc: "sstCount E + 1 = 1" unfolding E_def E0_def D0_def by code_simp
  have wl: "wal_log D \<noteq> None \<and> \<not> truncate_fails D" unfolding D_def E0_def D0_def by code_simp
  have W: "tableWriter env0 (fst (os_Create D (sstCount E + 1))) (memtable E) = (None, snd W)"
    using w1 by (simp add: W_def [symmetric] prod_eq_iff)
  obtain r' E' D' where fl: "Engine_Flush env0 D E = (r', E', D')"
    by (cases "Engine_Flush env0 D E")
  from engine_flush_outcomes [OF fl W] w2 w3 sc wl
  have "r' = None" "memtable E' = skiplist_New (seed1 env0)"
    "tables D' 1 = Some (block_enc [([97], [49])])" "\<exists>w. wal_log D' = Some w \<and> data w = []"
    by auto
  with o r W fl show ?thesis by blast
qed

text \<open>
  The claim as it stands fails twice, with the table writer modelled from the spec.
  First, a table file that cannot be created: \<open>Flush\<close> drops the error of
  \<open>os.Create\<close>; after \<open>Put(a, 1)\<close> and \<open>Delete(a)\<close> the memtable is empty, the writer has
  nothing to write to the nil file, and \<open>Flush\<close> returns no error, leaves no table file
  and truncates the log that held the two records.  Second, a log that cannot be
  truncated: after \<open>Put(a, 1)\<close>, \<open>Flush\<close> returns the error, yet the memtable is
  already replaced (\<open>Get(a)\<close> returns not found) and the log still holds the record: the
  call fails and is not without effect.
\<close>

theorem engine_flush_outcomes_counterexample:
  "(\<exists>e0 d0 e d e' d'.
      Engine_Open env0 \<lparr> Dir = ''db'', MemtableFlushThreshold = 0 \<rparr>
        (disk_empty\<lparr>create_fails := True\<rparr>) = (Inr e0, d0)
    \<and> engine_run env0 (e0, d0) [DoPut [97] [49], DoDelete [97]] = (e, d)
    \<and> wal_log d = Some \<lparr> data = [1, 1, 0, 0, 0, 97, 1, 0, 0, 0, 49, 2, 1, 0, 0, 0, 97], room = None \<rparr>
    \<and> fst (os_Create d (sstCount e + 1)) = None
    \<and> Engine_Flush env0 d e = (None, e', d')
    \<and> tables d' 1 = None
    \<and> wal_log d' = Some \<lparr> data = [], room = None \<rparr>)
   \<and> (\<exists>e0 d0 e d e' d'.
      Engine_Open env0 \<lparr> Dir = ''db'', MemtableFlushThreshold = 0 \<rparr>
        (disk_empty\<lparr>truncate_fails := True\<rparr>) = (Inr e0, d0)
    \<and> engine_run env0 (e0, d0) [DoPut [97] [49]] = (e, d)
    \<and> Engine_Get e [97] = Inr [49]
    \<and> Engine_Flush env0 d e = (Some ErrIO, e', d')
    \<and> Engine_Get e' [97] = Inl ErrNotFound
    \<and> wal_log d' = wal_log d)"
proof
  define E0 where "E0 = \<lparr> options = \<lparr> Dir = ''db'', MemtableFlushThreshold = 0 \<rparr>,
    memtable = skiplist_New (seed1 env0), wal = NewWriter, sstCount = 0, memSize = 0 \<rparr>"
  define D0 where "D0 = disk_empty\<lparr>create_fails := True\<rparr>
      \<lparr>wal_log := Some \<lparr> data = [], room = create_room (disk_empty\<lparr>create_fails := True\<rparr>) \<rparr>\<rparr>"
  define E where "E = fst (engine_run env0 (E0, D0) [DoPut [97] [49], DoDelete [97]])"
  define D where "D = snd (engine_run env0 (E0, D0) [DoPut [97] [49], DoDelete [97]])"
  define F where "F = Engine_Flush env0 D E"
  have o: "Engine_Open env0 \<lparr> Dir = ''db'', MemtableFlushThreshold = 0 \<rparr>
        (disk_empty\<lparr>create_fails := True\<rparr>) = (Inr E0, D0)"
    unfolding E0_def D0_def by (rule Engine_Open_fresh) (simp_all add: disk_empty_def)
  have r: "engine_run env0 (E0, D0) [DoPut [97] [49], DoDelete [97]] = (E, D)"
    by (simp add: E_def D_def)
  have w: "wal_log D = Some \<lparr> data = [1, 1, 0, 0, 0, 97, 1, 0, 0, 0, 49, 2, 1, 0, 0, 0, 97], room = None \<rparr>"
    unfolding D_def E0_def D0_def by code_simp
  have c: "fst (os_Create D (sstCount E + 1)) = None"
    unfolding E_def D_def E0_def D0_def by code_simp
  have f1: "fst F = None" unfolding F_def E_def D_def E0_def D0_def by code_simp
  have f2: "tables (snd (snd F)) 1 = None" unfolding F_def E_def D_def E0_def D0_def by code_simp
  have f3: "wal_log (snd (snd F)) = Some \<lparr> data = [], room = None \<rparr>"
    unfolding F_def E_def D_def E0_def D0_def by code_simp
  have F: "Engine_Flush env0 D E = (None, fst (snd F), snd (snd F))"
    using f1 by (simp add: F_def [symmetric] prod_eq_iff)
  from o r w c F f2 f3
  show "\<exists>e0 d0 e d e' d'.
      Engine_Open env0 \<lparr> Dir = ''db'', MemtableFlushThreshold = 0 \<rparr>
        (disk_empty\<lparr>create_fails := True\<rparr>) = (Inr e0, d0)
    \<and> engine_run env0 (e0, d0) [DoPut [97] [49], DoDelete [97]] = (e, d)
    \<and> wal_log d = Some \<lparr> data = [1, 1, 0, 0, 0, 97, 1, 0, 0, 0, 49, 2, 1, 0, 0, 0, 97], room = None \<rparr>
    \<and> fst (os_Create d (sstCount e + 1)) = None
    \<and> Engine_Flush env0 d e = (None, e', d')
    \<and> tables d' 1 = None
    \<and> wal_log d' = Some \<lparr> data = [], room = None \<rparr>"
    by blast
next
  define E0 where "E0 = \<lparr> options = \<lparr> Dir = ''db'', MemtableFlushThreshold = 0 \<rparr>,
    memtable = skiplist_New (seed1 env0), wal = NewWriter, sstCount = 0, memSize = 0 \<rparr>"
  define D0 where "D0 = disk_empty\<lparr>truncate_fails := True\<rparr>
      \<lparr>wal_log := Some \<lparr> data = [], room = create_room (disk_empty\<lparr>truncate_fails := True\<rparr>) \<rparr>\<rparr>"
  define E where "E = fst (engine_run env0 (E0, D0) [DoPut [97] [49]])"
  define D where "D = snd (engine_run env0 (E0, D0) [DoPut [97] [49]])"
  define F where "F = Engine_Flush env0 D E"
  have o: "Engine_Open env0 \<lparr> Dir = ''db'', MemtableFlushThreshold = 0 \<rparr>
        (disk_empty\<lparr>truncate_fails := True\<rparr>) = (Inr E0, D0)"
    unfolding E0_def D0_def by (rule Engine_Open_fresh) (simp_all add: disk_empty_def)
  have r: "engine_run env0 (E0, D0) [DoPut [97] [49]] = (E, D)" by (simp add: E_def D_def)
  have g: "Engine_Get E [97] = Inr [49]" unfolding E_def E0_def D0_def by code_simp
  have f1: "fst F = Some ErrIO" unfolding F_def E_def D_def E0_def D0_def by code_simp
  have f2: "Engine_Get (fst (snd F)) [97] = Inl ErrNotFound"
    unfolding F_def E_def D_def E0_def D0_def by code_simp
  have f3: "wal_log (snd (snd F)) = wal_log D" unfolding F_def E_def D_def E0_def D0_def by code_simp
  have F: "Engine_Flush env0 D E = (Some ErrIO, fst (snd F), snd (snd F))"
    using f1 by (simp add: F_def [symmetric] prod_eq_iff)
  from o r g F f2 f3
  show "\<exists>e0 d0 e d e' d'.
      Engine_Open env0 \<lparr> Dir = ''db'', MemtableFlushThreshold = 0 \<rparr>
        (disk_empty\<lparr>truncate_fails := True\<rparr>) = (Inr e0, d0)
    \<and> engine_run env0 (e0, d0) [DoPut [97] [49]] = (e, d)
    \<and> Engine_Get e [97] = Inr [49]
    \<and> Engine_Flush env0 d e = (Some ErrIO, e', d')
    \<and> Engine_Get e' [97] = Inl ErrNotFound
    \<and> wal_log d' = wal_log d"
    by blast
qed

end
